theory Spec2Isabelle
  imports Main "HOL-Library.Monad_Syntax"
begin

chapter \<open>The model\<close>

section \<open>JavaScript strings\<close>

text \<open>
  A JavaScript string is a sequence of UTF-16 code units. The model is a \<^typ>\<open>string\<close>
  whose characters are the code units U+0000 .. U+00FF (ASCII and Latin-1); \<open>of_char\<close>
  reads the code unit. All tables below (white space, digits, case mapping) are the
  ECMAScript ones cut down to that range.
\<close>

text \<open>
  \<open>WhiteSpace\<close> and \<open>LineTerminator\<close> of ECMAScript, which is what both
  \<open>String.prototype.trim\<close> and the regular expression class \<open>\s\<close> use: TAB, LF, VT,
  FF, CR, SP and NBSP (U+00A0).
\<close>

definition isWhiteSpace :: "char \<Rightarrow> bool" where
  "isWhiteSpace c = (let n = (of_char c :: nat) in (9 \<le> n \<and> n \<le> 13) \<or> n = 32 \<or> n = 160)"

text \<open>The regular expression class \<open>\d\<close>: the ten ASCII digits.\<close>

definition isDigit :: "char \<Rightarrow> bool" where
  "isDigit c = (let n = (of_char c :: nat) in 48 \<le> n \<and> n \<le> 57)"

text \<open>\<open>String.prototype.trim\<close>: white space is removed from both ends.\<close>

definition trim :: "string \<Rightarrow> string" where
  "trim s = rev (dropWhile isWhiteSpace (rev (dropWhile isWhiteSpace s)))"

text \<open>
  \<open>String.prototype.toLowerCase\<close>: \<open>A\<close>..\<open>Z\<close> and the Latin-1 capitals U+00C0 .. U+00DE
  (U+00D7, the multiplication sign, is not a letter) move up by 32; every other code unit
  of the range is its own lower case.
\<close>

definition toLowerCaseChar :: "char \<Rightarrow> char" where
  "toLowerCaseChar c =
     (let n = (of_char c :: nat)
      in if (65 \<le> n \<and> n \<le> 90) \<or> (192 \<le> n \<and> n \<le> 222 \<and> n \<noteq> 215)
         then char_of (n + 32) else c)"

definition toLowerCase :: "string \<Rightarrow> string" where
  "toLowerCase s = map toLowerCaseChar s"

text \<open>
  \<open>parseInt(s, 10)\<close> on a string of decimal digits, which is all the regular expressions
  of the source hand to it.
\<close>

definition digitValue :: "char \<Rightarrow> nat" where
  "digitValue c = of_char c - 48"

definition parseInt :: "string \<Rightarrow> nat" where
  "parseInt s = foldl (\<lambda>n c. 10 * n + digitValue c) 0 s"

text \<open>\<open>String(n)\<close> for a natural number: its decimal digits, no leading zero.\<close>

definition digitChar :: "nat \<Rightarrow> char" where
  "digitChar d = char_of (48 + d)"

fun String :: "nat \<Rightarrow> string" where
  "String n = (if n < 10 then [digitChar n] else String (n div 10) @ [digitChar (n mod 10)])"

text \<open>The equation is recursive without a pattern: it is unfolded by hand.\<close>

declare String.simps [simp del]

text \<open>\<open>s.padStart(k, "0")\<close>: zeros in front until the length is at least \<open>k\<close>.\<close>

definition padStart :: "nat \<Rightarrow> string \<Rightarrow> string" where
  "padStart k s = replicate (k - length s) (CHR ''0'') @ s"

section \<open>Errors\<close>

text \<open>
  The source throws plain \<open>Error\<close> objects that differ in their message. One constructor
  stands for each kind of throw site, named as the specification names them:
  \<open>ValidationError f\<close> for a rejected field \<open>f\<close> of a record, \<open>ReferenceError f\<close> for a
  dangling reference, \<open>ConfigError\<close> for the missing connection URI and \<open>ConnectError e\<close>
  for a rejection \<open>e\<close> of the driver's connect operation, passed on unchanged.
\<close>

datatype error =
    ValidationError string
  | ReferenceError string
  | ConfigError
  | ConnectError string

section \<open>Time normalization (\<open>normalizeTimeTo24\<close>)\<close>

text \<open>
  \<open>trimmed.match(/^(\d{1,2}):(\d{2})$/)\<close>: one or two digits, a colon, two digits, and
  nothing else. The result holds the two captured groups.
\<close>

definition match_hhmm :: "string \<Rightarrow> (string \<times> string) option" where
  "match_hhmm s =
     (let h = takeWhile isDigit s; r = dropWhile isDigit s
      in if 1 \<le> length h \<and> length h \<le> 2 \<and> r \<noteq> [] \<and> hd r = CHR '':''
            \<and> length (tl r) = 2 \<and> list_all isDigit (tl r)
         then Some (h, tl r) else None)"

text \<open>
  \<open>trimmed.match(/^(\d{1,2})(?::(\d{2}))?\s*(am|pm)$/)\<close>: one or two digits, then
  optionally a colon and two digits, then any white space, then \<open>am\<close> or \<open>pm\<close> at the end.
  The groups are the hour, the minute (\<open>None\<close> where the optional group did not take
  part) and the period.
\<close>

definition match_ampm :: "string \<Rightarrow> (string \<times> string option \<times> string) option" where
  "match_ampm s =
     (let h = takeWhile isDigit s; r = dropWhile isDigit s
      in if 1 \<le> length h \<and> length h \<le> 2 then
           (let (m, r') =
                  (if r \<noteq> [] \<and> hd r = CHR '':'' \<and> length (take 2 (tl r)) = 2
                      \<and> list_all isDigit (take 2 (tl r))
                   then (Some (take 2 (tl r)), drop 2 (tl r)) else (None, r));
                p = dropWhile isWhiteSpace r'
            in if p = ''am'' \<or> p = ''pm'' then Some (h, m, p) else None)
         else None)"

text \<open>The template \<open>`${String(h).padStart(2, "0")}:${String(m).padStart(2, "0")}`\<close>.\<close>

definition hhmm :: "nat \<Rightarrow> nat \<Rightarrow> string" where
  "hhmm h m = padStart 2 (String h) @ '':'' @ padStart 2 (String m)"

text \<open>
  The first \<open>if\<close> block of \<open>normalizeTimeTo24\<close> (the direct match): it returns only where
  the pattern matches and both numbers are in range; otherwise control falls through.
\<close>

definition directBlock :: "string \<Rightarrow> string option" where
  "directBlock trimmed =
     (case match_hhmm trimmed of
        None \<Rightarrow> None
      | Some (g1, g2) \<Rightarrow>
          (let hh = parseInt g1; mm = parseInt g2
           in if 0 \<le> hh \<and> hh < 24 \<and> 0 \<le> mm \<and> mm < 60 then Some (hhmm hh mm) else None))"

text \<open>
  The second \<open>if\<close> block (the am/pm match): the hour is converted first (\<open>pm\<close> adds 12
  unless the hour is 12, \<open>12 am\<close> becomes 0), and the range test is on the converted hour.
\<close>

definition ampmBlock :: "string \<Rightarrow> string option" where
  "ampmBlock trimmed =
     (case match_ampm trimmed of
        None \<Rightarrow> None
      | Some (g1, g2, period) \<Rightarrow>
          (let hour0 = parseInt g1;
               minute = (case g2 of None \<Rightarrow> 0 | Some d \<Rightarrow> parseInt d);
               hour1 = (if period = ''pm'' \<and> hour0 \<noteq> 12 then hour0 + 12 else hour0);
               hour = (if period = ''am'' \<and> hour1 = 12 then 0 else hour1)
           in if 0 \<le> hour \<and> hour < 24 \<and> 0 \<le> minute \<and> minute < 60
              then Some (hhmm hour minute) else None))"

text \<open>
  \<open>normalizeTimeTo24\<close>: trim, lower case, the two blocks in order, and the final
  \<open>throw new Error(`Invalid time format: ...`)\<close> where neither returned.
\<close>

definition normalizeTimeTo24 :: "string \<Rightarrow> error + string" where
  "normalizeTimeTo24 input =
     (let trimmed = toLowerCase (trim input)
      in case directBlock trimmed of
           Some t \<Rightarrow> Inr t
         | None \<Rightarrow>
             (case ampmBlock trimmed of
                Some t \<Rightarrow> Inr t
              | None \<Rightarrow> Inl (ValidationError ''time'')))"

text \<open>
  The grammar of the accepted times, stated on its own (and not by the matching functions
  above). \<open>optMinute\<close> is the optional minute part \<open>:MM\<close> of the 12-hour form.
\<close>

definition optMinute :: "string option \<Rightarrow> string" where
  "optMinute g = (case g of None \<Rightarrow> [] | Some d \<Rightarrow> CHR '':'' # d)"

text \<open>\<open>time24 t h m\<close>: \<open>t\<close> is \<open>H:MM\<close> or \<open>HH:MM\<close> and reads as hour \<open>h\<close>, minute \<open>m\<close>.\<close>

definition time24 :: "string \<Rightarrow> nat \<Rightarrow> nat \<Rightarrow> bool" where
  "time24 t h m \<longleftrightarrow>
     (\<exists>H M. t = H @ '':'' @ M \<and> (length H = 1 \<or> length H = 2) \<and> length M = 2
        \<and> list_all isDigit H \<and> list_all isDigit M \<and> h = parseInt H \<and> m = parseInt M)"

text \<open>
  \<open>time12 t h m p\<close>: \<open>t\<close> is \<open>H[:MM]\<close>, optional white space and the period \<open>p\<close>
  (\<open>am\<close> or \<open>pm\<close>); it reads as hour \<open>h\<close> and minute \<open>m\<close> (0 where absent).
\<close>

definition time12 :: "string \<Rightarrow> nat \<Rightarrow> nat \<Rightarrow> string \<Rightarrow> bool" where
  "time12 t h m p \<longleftrightarrow>
     (\<exists>H G W. t = H @ optMinute G @ W @ p \<and> (length H = 1 \<or> length H = 2)
        \<and> list_all isDigit H \<and> h = parseInt H
        \<and> (case G of None \<Rightarrow> m = 0
            | Some d \<Rightarrow> length d = 2 \<and> list_all isDigit d \<and> m = parseInt d)
        \<and> list_all isWhiteSpace W \<and> (p = ''am'' \<or> p = ''pm''))"

text \<open>The zero-padded 24-hour form \<open>HH:MM\<close> of an hour and a minute below 100.\<close>

definition zeroPadded :: "nat \<Rightarrow> nat \<Rightarrow> string" where
  "zeroPadded h m =
     [digitChar (h div 10), digitChar (h mod 10), CHR '':'',
      digitChar (m div 10), digitChar (m mod 10)]"

section \<open>Date normalization (\<open>normalizeDateToISO\<close>)\<close>

text \<open>
  \<open>new Date(input)\<close>, \<open>getTime\<close> and \<open>toISOString\<close> are ECMAScript's. A time value is an
  integer number of milliseconds since 1970-01-01T00:00:00Z, or \<open>NaN\<close>, which the
  model writes \<open>None\<close>. The day and year arithmetic below is the one of the ECMAScript
  specification (section "Time Values and Time Range" onwards), over \<open>int\<close>, whose
  \<open>div\<close> and \<open>mod\<close> are the floor operations the specification uses.
\<close>

definition msPerDay :: int where
  "msPerDay = 86400000"

definition Day :: "int \<Rightarrow> int" where
  "Day t = t div msPerDay"

definition TimeWithinDay :: "int \<Rightarrow> int" where
  "TimeWithinDay t = t mod msPerDay"

definition isLeapYear :: "int \<Rightarrow> bool" where
  "isLeapYear y = (y mod 4 = 0 \<and> (y mod 100 \<noteq> 0 \<or> y mod 400 = 0))"

definition DaysInYear :: "int \<Rightarrow> int" where
  "DaysInYear y = (if isLeapYear y then 366 else 365)"

definition DayFromYear :: "int \<Rightarrow> int" where
  "DayFromYear y =
     365 * (y - 1970) + (y - 1969) div 4 - (y - 1901) div 100 + (y - 1601) div 400"

text \<open>
  \<open>YearFromTime(t)\<close> is "the largest integer \<open>y\<close> such that \<open>TimeFromYear(y) \<le> t\<close>". The
  model finds it by a search upwards from an estimate that is not above it: a year has
  at most 366 days, so day \<open>d \<ge> 0\<close> is at least \<open>d div 366\<close> years after 1970, and at
  least 365, so day \<open>d < 0\<close> is at most \<open>- (d div 365)\<close> years before it. The search ends
  because consecutive years start a positive number of days apart.
\<close>

function yearUp :: "int \<Rightarrow> int \<Rightarrow> int" where
  "yearUp d y = (if DayFromYear (y + 1) \<le> d then yearUp d (y + 1) else y)"
  by pat_completeness auto
termination
proof (relation "measure (\<lambda>(d, y). nat (d + 1 - DayFromYear (y + 1)))")
  fix d y :: int
  assume run: "DayFromYear (y + 1) \<le> d"
  define z where "z = y + 1"
  define a a' b b' c c' where "a = (z - 1969) div 4" and "a' = (z + 1 - 1969) div 4"
    and "b = (z - 1901) div 100" and "b' = (z + 1 - 1901) div 100"
    and "c = (z - 1601) div 400" and "c' = (z + 1 - 1601) div 400"
  have "a \<le> a'" unfolding a_def a'_def by (rule zdiv_mono1) simp_all
  moreover have "b' \<le> (z - 1901 + 100) div 100" unfolding b'_def by (rule zdiv_mono1) simp_all
  then have "b' \<le> b + 1" unfolding b_def by simp
  moreover have "c \<le> c'" unfolding c_def c'_def by (rule zdiv_mono1) simp_all
  moreover have "DayFromYear z = 365 * (z - 1970) + a - b + c"
    and "DayFromYear (z + 1) = 365 * (z + 1 - 1970) + a' - b' + c'"
    by (simp_all only: DayFromYear_def a_def a'_def b_def b'_def c_def c'_def)
  ultimately have "DayFromYear z < DayFromYear (z + 1)" by simp
  with run show "((d, y + 1), (d, y)) \<in> measure (\<lambda>(d, y). nat (d + 1 - DayFromYear (y + 1)))"
    by (simp add: z_def)
qed simp

definition YearFromTime :: "int \<Rightarrow> int" where
  "YearFromTime t =
     (let d = Day t
      in yearUp d (1970 + (if 0 \<le> d then d div 366 else d div 365)))"

definition DayWithinYear :: "int \<Rightarrow> int" where
  "DayWithinYear t = Day t - DayFromYear (YearFromTime t)"

definition InLeapYear :: "int \<Rightarrow> int" where
  "InLeapYear t = (if DaysInYear (YearFromTime t) = 366 then 1 else 0)"

text \<open>The tables of \<open>MonthFromTime\<close> (0 is January) and \<open>DateFromTime\<close>.\<close>

definition MonthFromTime :: "int \<Rightarrow> int" where
  "MonthFromTime t =
     (let d = DayWithinYear t; l = InLeapYear t
      in if d < 31 then 0 else if d < 59 + l then 1 else if d < 90 + l then 2
         else if d < 120 + l then 3 else if d < 151 + l then 4 else if d < 181 + l then 5
         else if d < 212 + l then 6 else if d < 243 + l then 7 else if d < 273 + l then 8
         else if d < 304 + l then 9 else if d < 334 + l then 10 else 11)"

definition DateFromTime :: "int \<Rightarrow> int" where
  "DateFromTime t =
     (let d = DayWithinYear t; l = InLeapYear t; m = MonthFromTime t
      in if m = 0 then d + 1 else if m = 1 then d - 30 else if m = 2 then d - 58 - l
         else if m = 3 then d - 89 - l else if m = 4 then d - 119 - l
         else if m = 5 then d - 150 - l else if m = 6 then d - 180 - l
         else if m = 7 then d - 211 - l else if m = 8 then d - 242 - l
         else if m = 9 then d - 272 - l else if m = 10 then d - 303 - l else d - 333 - l)"

definition HourFromTime :: "int \<Rightarrow> int" where
  "HourFromTime t = (t div 3600000) mod 24"

definition MinFromTime :: "int \<Rightarrow> int" where
  "MinFromTime t = (t div 60000) mod 60"

definition SecFromTime :: "int \<Rightarrow> int" where
  "SecFromTime t = (t div 1000) mod 60"

definition msFromTime :: "int \<Rightarrow> int" where
  "msFromTime t = t mod 1000"

definition MakeTime :: "int \<Rightarrow> int \<Rightarrow> int \<Rightarrow> int \<Rightarrow> int" where
  "MakeTime h m s ms = h * 3600000 + m * 60000 + s * 1000 + ms"

text \<open>
  \<open>firstDayOfMonth y m\<close> is the day within year \<open>y\<close> on which month \<open>m\<close> (0 is January)
  starts; at \<open>m = 12\<close> it is the length of the year. \<open>MakeDay\<close> asks for the day number
  of the first of the month and adds the date: this is that day.
\<close>

definition firstDayOfMonth :: "int \<Rightarrow> int \<Rightarrow> int" where
  "firstDayOfMonth y m =
     (let l = (if isLeapYear y then 1 else 0)
      in if m = 0 then 0 else if m = 1 then 31 else if m = 2 then 59 + l
         else if m = 3 then 90 + l else if m = 4 then 120 + l else if m = 5 then 151 + l
         else if m = 6 then 181 + l else if m = 7 then 212 + l else if m = 8 then 243 + l
         else if m = 9 then 273 + l else if m = 10 then 304 + l else if m = 11 then 334 + l
         else 365 + l)"

definition MakeDay :: "int \<Rightarrow> int \<Rightarrow> int \<Rightarrow> int" where
  "MakeDay year month date =
     (let ym = year + month div 12; mn = month mod 12
      in DayFromYear ym + firstDayOfMonth ym mn + date - 1)"

definition MakeDate :: "int \<Rightarrow> int \<Rightarrow> int" where
  "MakeDate day time = day * msPerDay + time"

text \<open>\<open>TimeClip\<close>: a time value is at most 8.64e15 milliseconds from the epoch.\<close>

definition TimeClip :: "int \<Rightarrow> int option" where
  "TimeClip t = (if \<bar>t\<bar> \<le> 8640000000000000 then Some t else None)"

text \<open>
  \<open>Date.prototype.toISOString\<close>: \<open>YYYY-MM-DDTHH:mm:ss.sssZ\<close> in UTC, the year with four
  digits from 0 to 9999 and as an expanded year (a sign and six digits) otherwise.
\<close>

definition pad :: "nat \<Rightarrow> int \<Rightarrow> string" where
  "pad k n = padStart k (String (nat n))"

definition toISOString :: "int \<Rightarrow> string" where
  "toISOString t =
     (let y = YearFromTime t;
          year = (if 0 \<le> y \<and> y \<le> 9999 then pad 4 y
                  else (if y < 0 then ''-'' else ''+'') @ pad 6 \<bar>y\<bar>)
      in year @ ''-'' @ pad 2 (MonthFromTime t + 1) @ ''-'' @ pad 2 (DateFromTime t)
         @ ''T'' @ pad 2 (HourFromTime t) @ '':'' @ pad 2 (MinFromTime t)
         @ '':'' @ pad 2 (SecFromTime t) @ ''.'' @ pad 3 (msFromTime t) @ ''Z'')"

text \<open>
  \<open>Date.parse\<close> first reads its argument in the Date Time String Format; what it does
  with any other string is left to the implementation. The model fixes the result only
  for the complete UTC form \<open>YYYY-MM-DDTHH:mm:ss.sssZ\<close> (also with an expanded year) with
  every field in range (\<open>parseISO\<close>); every other string is handed to \<open>impl\<close>, the
  implementation's own parser, a parameter about which nothing is assumed.
\<close>

definition digitsField :: "nat \<Rightarrow> string \<Rightarrow> (int \<times> string) option" where
  "digitsField k s =
     (if k \<le> length s \<and> list_all isDigit (take k s)
      then Some (int (parseInt (take k s)), drop k s) else None)"

definition expect :: "char \<Rightarrow> string \<Rightarrow> string option" where
  "expect c s = (case s of [] \<Rightarrow> None | x # r \<Rightarrow> if x = c then Some r else None)"

text \<open>The year: four digits, or a sign and six digits, where \<open>-000000\<close> is not a year.\<close>

definition yearField :: "string \<Rightarrow> (int \<times> string) option" where
  "yearField s =
     (case s of
        [] \<Rightarrow> None
      | x # r \<Rightarrow>
          if x = CHR ''+'' then digitsField 6 r
          else if x = CHR ''-'' then
            (case digitsField 6 r of
               None \<Rightarrow> None
             | Some (y, r') \<Rightarrow> if y = 0 then None else Some (- y, r'))
          else digitsField 4 s)"

definition parseISO :: "string \<Rightarrow> int option" where
  "parseISO s = do {
     (y, s) \<leftarrow> yearField s;
     s \<leftarrow> expect (CHR ''-'') s;
     (mo, s) \<leftarrow> digitsField 2 s;
     s \<leftarrow> expect (CHR ''-'') s;
     (d, s) \<leftarrow> digitsField 2 s;
     s \<leftarrow> expect (CHR ''T'') s;
     (h, s) \<leftarrow> digitsField 2 s;
     s \<leftarrow> expect (CHR '':'') s;
     (mi, s) \<leftarrow> digitsField 2 s;
     s \<leftarrow> expect (CHR '':'') s;
     (sec, s) \<leftarrow> digitsField 2 s;
     s \<leftarrow> expect (CHR ''.'') s;
     (ms, s) \<leftarrow> digitsField 3 s;
     s \<leftarrow> expect (CHR ''Z'') s;
     if s = [] \<and> 1 \<le> mo \<and> mo \<le> 12
        \<and> 1 \<le> d \<and> d \<le> firstDayOfMonth y mo - firstDayOfMonth y (mo - 1)
        \<and> h \<le> 23 \<and> mi \<le> 59 \<and> sec \<le> 59
     then Some (MakeDate (MakeDay y (mo - 1) d) (MakeTime h mi sec ms))
     else None
   }"

definition Date_parse :: "(string \<Rightarrow> int option) \<Rightarrow> string \<Rightarrow> int option" where
  "Date_parse impl s =
     (case parseISO s of
        Some t \<Rightarrow> TimeClip t
      | None \<Rightarrow> (case impl s of None \<Rightarrow> None | Some t \<Rightarrow> TimeClip t))"

text \<open>
  \<open>normalizeDateToISO\<close>: \<open>new Date(input)\<close>, the throw where \<open>getTime()\<close> is \<open>NaN\<close>, and
  \<open>toISOString()\<close> otherwise.
\<close>

definition normalizeDateToISO :: "(string \<Rightarrow> int option) \<Rightarrow> string \<Rightarrow> error + string" where
  "normalizeDateToISO impl input =
     (case Date_parse impl input of
        None \<Rightarrow> Inl (ValidationError ''date'')
      | Some t \<Rightarrow> Inr (toISOString t))"

text \<open>
  A parser of an implementation, for the examples: it reads the one string
  \<open>Feb 29, 2020\<close>, as midnight UTC of that day.
\<close>

definition sampleParser :: "string \<Rightarrow> int option" where
  "sampleParser s = (if s = ''Feb 29, 2020'' then Some 1582934400000 else None)"

section \<open>Slug derivation (\<open>slugify\<close>)\<close>

text \<open>The character class \<open>[a-z0-9]\<close>.\<close>

definition isSlugChar :: "char \<Rightarrow> bool" where
  "isSlugChar c = (let n = (of_char c :: nat) in (97 \<le> n \<and> n \<le> 122) \<or> (48 \<le> n \<and> n \<le> 57))"

text \<open>
  \<open>.replace(/[^a-z0-9]+/g, "-")\<close>: scanning from the left, a character of the class is
  kept; at any other character the longest run of such characters (the \<open>+\<close> is greedy)
  is replaced by one dash, and the scan goes on behind the run.
\<close>

function replaceRuns :: "string \<Rightarrow> string" where
  "replaceRuns [] = []"
| "replaceRuns (c # cs) =
     (if isSlugChar c then c # replaceRuns cs
      else CHR ''-'' # replaceRuns (dropWhile (\<lambda>x. \<not> isSlugChar x) cs))"
  by pat_completeness auto
termination
  by (relation "measure length") (auto simp: length_dropWhile_le le_imp_less_Suc)

text \<open>
  \<open>.replace(/(^-|-$)/g, "")\<close>: \<open>^-\<close> can match only at the start and \<open>-$\<close> only at the
  last character, so a dash at the start is removed, and then a dash at the end of what
  is left.
\<close>

definition stripEdgeDashes :: "string \<Rightarrow> string" where
  "stripEdgeDashes s =
     (let s1 = (if s \<noteq> [] \<and> hd s = CHR ''-'' then tl s else s)
      in if s1 \<noteq> [] \<and> last s1 = CHR ''-'' then butlast s1 else s1)"

definition slugify :: "string \<Rightarrow> string" where
  "slugify v = stripEdgeDashes (replaceRuns (trim (toLowerCase v)))"

text \<open>
  The derivation in the words of the specification, to compare \<open>slugify\<close> with:
  \<open>runs P s\<close> cuts \<open>s\<close> into its maximal runs of characters that agree on \<open>P\<close>;
  \<open>dashRuns\<close> replaces every run of characters outside \<open>[a-z0-9]\<close> by a single dash;
  \<open>stripDashes\<close> removes all dashes at both ends.
\<close>

fun runs :: "('a \<Rightarrow> bool) \<Rightarrow> 'a list \<Rightarrow> 'a list list" where
  "runs P [] = []"
| "runs P (x # xs) =
     (case runs P xs of
        [] \<Rightarrow> [[x]]
      | r # rs \<Rightarrow> if P x = P (hd r) then (x # r) # rs else [x] # r # rs)"

definition dashRuns :: "string \<Rightarrow> string" where
  "dashRuns s = concat (map (\<lambda>r. if isSlugChar (hd r) then r else ''-'') (runs isSlugChar s))"

definition stripDashes :: "string \<Rightarrow> string" where
  "stripDashes s =
     rev (dropWhile (\<lambda>c. c = CHR ''-'') (rev (dropWhile (\<lambda>c. c = CHR ''-'') s)))"

definition kebab :: "string \<Rightarrow> string" where
  "kebab v = stripDashes (dashRuns (trim (toLowerCase v)))"

section \<open>The Event document and its pre-save hook\<close>

text \<open>
  The fields of a document are JavaScript values: the hook itself tests \<open>typeof\<close>,
  \<open>Array.isArray\<close> and truthiness, so a field may hold \<open>undefined\<close> (it is absent),
  \<open>null\<close>, or a value of another type than the interface \<open>IEvent\<close> declares.
\<close>

datatype jsval =
    JUndefined
  | JNull
  | JBool bool
  | JNumber int
  | JString string
  | JArray "jsval list"

text \<open>\<open>!v\<close> is \<open>\<not> truthy v\<close>.\<close>

fun truthy :: "jsval \<Rightarrow> bool" where
  "truthy JUndefined = False"
| "truthy JNull = False"
| "truthy (JBool b) = b"
| "truthy (JNumber n) = (n \<noteq> 0)"
| "truthy (JString s) = (s \<noteq> [])"
| "truthy (JArray xs) = True"

text \<open>
  The document \<open>this\<close> of the hook (\<open>createdAt\<close> and \<open>updatedAt\<close> are the store's and the
  hook does not touch them). The field \<open>image\<close> is written \<open>image'\<close>.
\<close>

record event =
  title :: jsval
  slug :: jsval
  description :: jsval
  overview :: jsval
  image' :: jsval
  venue :: jsval
  location :: jsval
  date :: jsval
  time :: jsval
  mode :: jsval
  audience :: jsval
  agenda :: jsval
  organizer :: jsval
  tags :: jsval

text \<open>The array \<open>requiredStringFields\<close>, each name with the field it reads.\<close>

definition requiredStringFields :: "(string \<times> (event \<Rightarrow> jsval)) list" where
  "requiredStringFields =
     [(''title'', title), (''description'', description), (''overview'', overview),
      (''image'', image'), (''venue'', venue), (''location'', location), (''date'', date),
      (''time'', time), (''mode'', mode), (''audience'', audience), (''organizer'', organizer)]"

text \<open>
  The \<open>for\<close> loop over \<open>requiredStringFields\<close>: the first field whose value is not a
  string (\<open>typeof val !== "string"\<close>) or is blank (\<open>val.trim().length === 0\<close>) throws.
\<close>

fun checkRequired :: "(string \<times> (event \<Rightarrow> jsval)) list \<Rightarrow> event \<Rightarrow> error option" where
  "checkRequired [] doc = None"
| "checkRequired ((field, get) # rest) doc =
     (case get doc of
        JString val \<Rightarrow>
          if length (trim val) = 0 then Some (ValidationError field)
          else checkRequired rest doc
      | _ \<Rightarrow> Some (ValidationError field))"

text \<open>\<open>!Array.isArray(v) || v.length === 0\<close>.\<close>

fun isEmptyOrNoArray :: "jsval \<Rightarrow> bool" where
  "isEmptyOrNoArray (JArray xs) = (length xs = 0)"
| "isEmptyOrNoArray _ = True"

text \<open>
  The string in a field that the loop above has found to be a string: \<open>stringOf\<close> is
  applied to \<open>title\<close>, \<open>date\<close> and \<open>time\<close> only, and only behind that loop.
\<close>

fun stringOf :: "jsval \<Rightarrow> string" where
  "stringOf (JString s) = s"
| "stringOf _ = []"

text \<open>
  The hook \<open>EventSchema.pre("save", ...)\<close>. It mutates \<open>this\<close> and may throw after a
  mutation, so the model returns the error (if any) together with the document as the
  hook leaves it. \<open>titleModified\<close> is \<open>this.isModified("title")\<close>; \<open>impl\<close> is the date
  parser of the implementation (see \<open>Date_parse\<close>).
\<close>

definition preSaveEvent ::
  "(string \<Rightarrow> int option) \<Rightarrow> bool \<Rightarrow> event \<Rightarrow> error option \<times> event" where
  "preSaveEvent impl titleModified this =
     (case checkRequired requiredStringFields this of
        Some e \<Rightarrow> (Some e, this)
      | None \<Rightarrow>
          if isEmptyOrNoArray (agenda this) then (Some (ValidationError ''agenda''), this)
          else if isEmptyOrNoArray (tags this) then (Some (ValidationError ''tags''), this)
          else
            (let this1 = (if titleModified \<or> \<not> truthy (slug this)
                          then this\<lparr>slug := JString (slugify (stringOf (title this)))\<rparr>
                          else this)
             in case normalizeDateToISO impl (stringOf (date this1)) of
                  Inl e \<Rightarrow> (Some e, this1)
                | Inr d \<Rightarrow>
                    (let this2 = this1\<lparr>date := JString d\<rparr>
                     in case normalizeTimeTo24 (stringOf (time this2)) of
                          Inl e \<Rightarrow> (Some e, this2)
                        | Inr t \<Rightarrow> (None, this2\<lparr>time := JString t\<rparr>))))"

text \<open>
  Saving. \<open>EventSchema\<close> declares every path \<open>required: true\<close>, the slug among them, with
  \<open>type: String\<close> for all but \<open>agenda\<close> and \<open>tags\<close>, which are \<open>type: [String]\<close>. The options
  of the schema (\<open>timestamps\<close>, \<open>strict\<close>) leave \<open>validateBeforeSave\<close> at its default, so
  \<open>save()\<close> of the library first validates the document against the schema and runs the
  hooks registered with \<open>pre("save")\<close> only when no path has failed. The required
  validator of a \<open>String\<close> path accepts a string of length at least one, and nothing else;
  that of an array path accepts what is neither \<open>undefined\<close> nor \<open>null\<close>.
\<close>

datatype schemaType = SchemaString | SchemaArray

definition EventSchema :: "(string \<times> schemaType \<times> (event \<Rightarrow> jsval)) list" where
  "EventSchema =
     [(''title'', SchemaString, title), (''slug'', SchemaString, slug),
      (''description'', SchemaString, description), (''overview'', SchemaString, overview),
      (''image'', SchemaString, image'), (''venue'', SchemaString, venue),
      (''location'', SchemaString, location), (''date'', SchemaString, date),
      (''time'', SchemaString, time), (''mode'', SchemaString, mode),
      (''audience'', SchemaString, audience), (''agenda'', SchemaArray, agenda),
      (''organizer'', SchemaString, organizer), (''tags'', SchemaArray, tags)]"

fun checkRequiredPath :: "schemaType \<Rightarrow> jsval \<Rightarrow> bool" where
  "checkRequiredPath SchemaString (JString s) = (length s \<noteq> 0)"
| "checkRequiredPath SchemaString _ = False"
| "checkRequiredPath SchemaArray JUndefined = False"
| "checkRequiredPath SchemaArray JNull = False"
| "checkRequiredPath SchemaArray _ = True"

text \<open>The paths that fail validation, in the order of the schema.\<close>

definition validate :: "event \<Rightarrow> string list" where
  "validate this = [name. (name, ty, get) \<leftarrow> EventSchema, \<not> checkRequiredPath ty (get this)]"

text \<open>
  \<open>save()\<close> rejects either with the validation error of the schema, which lists the failed
  paths, or with the error the hook has thrown. In the first case the hook has not run
  and the document is as it was.
\<close>

datatype saveError = SchemaValidation "string list" | HookError error

definition saveEvent ::
  "(string \<Rightarrow> int option) \<Rightarrow> bool \<Rightarrow> event \<Rightarrow> saveError option \<times> event" where
  "saveEvent impl titleModified this =
     (if validate this \<noteq> [] then (Some (SchemaValidation (validate this)), this)
      else case preSaveEvent impl titleModified this of
             (Some e, this') \<Rightarrow> (Some (HookError e), this')
           | (None, this') \<Rightarrow> (None, this'))"

text \<open>
  The conditions of the specification on a field: a text field is missing when it is
  absent, not text, or empty after trimming; a list field is missing when it is absent,
  not a list, or has no element.
\<close>

definition missingText :: "jsval \<Rightarrow> bool" where
  "missingText v = (case v of JString s \<Rightarrow> trim s = [] | _ \<Rightarrow> True)"

definition missingList :: "jsval \<Rightarrow> bool" where
  "missingList v = (case v of JArray xs \<Rightarrow> xs = [] | _ \<Rightarrow> True)"

text \<open>A complete document, for the examples.\<close>

definition sampleEvent :: event where
  "sampleEvent =
     \<lparr>title = JString ''Hello, World!'', slug = JUndefined, description = JString ''A meetup'',
      overview = JString ''Talks'', image' = JString ''/images/e.png'', venue = JString ''Hall 1'',
      location = JString ''Pune'', date = JString ''2020-02-29T00:00:00.000Z'',
      time = JString ''9:30 PM'', mode = JString ''offline'', audience = JString ''developers'',
      agenda = JArray [JString ''Keynote''], organizer = JString ''Dev Events'',
      tags = JArray [JString ''web'']\<rparr>"

section \<open>Regular expressions without groups\<close>

text \<open>
  \<open>re.test(s)\<close> for a pattern anchored at both ends (\<open>^...$\<close>, no flags) asks whether
  the whole of \<open>s\<close> is a word of the pattern. \<open>test\<close> decides this by taking the
  pattern's derivative (\<open>after\<close>) along the string; \<open>words\<close> is the set of words of a
  pattern, which \<open>test\<close> is proved to decide.
\<close>

datatype regex =
    Never
  | Empty
  | Class "char \<Rightarrow> bool"
  | Or regex regex
  | Then regex regex
  | Many regex

inductive_set many :: "string set \<Rightarrow> string set" for L :: "string set" where
  none: "[] \<in> many L"
| more: "u \<in> L \<Longrightarrow> v \<in> many L \<Longrightarrow> u @ v \<in> many L"

fun words :: "regex \<Rightarrow> string set" where
  "words Never = {}"
| "words Empty = {[]}"
| "words (Class P) = {[c] | c. P c}"
| "words (Or r s) = words r \<union> words s"
| "words (Then r s) = {u @ v | u v. u \<in> words r \<and> v \<in> words s}"
| "words (Many r) = many (words r)"

fun nullable :: "regex \<Rightarrow> bool" where
  "nullable Never = False"
| "nullable Empty = True"
| "nullable (Class P) = False"
| "nullable (Or r s) = (nullable r \<or> nullable s)"
| "nullable (Then r s) = (nullable r \<and> nullable s)"
| "nullable (Many r) = True"

fun after :: "char \<Rightarrow> regex \<Rightarrow> regex" where
  "after c Never = Never"
| "after c Empty = Never"
| "after c (Class P) = (if P c then Empty else Never)"
| "after c (Or r s) = Or (after c r) (after c s)"
| "after c (Then r s) =
     (if nullable r then Or (Then (after c r) s) (after c s) else Then (after c r) s)"
| "after c (Many r) = Then (after c r) (Many r)"

fun test :: "regex \<Rightarrow> string \<Rightarrow> bool" where
  "test r [] = nullable r"
| "test r (c # cs) = test (after c r) cs"

text \<open>\<open>r+\<close> and a literal character.\<close>

definition some :: "regex \<Rightarrow> regex" where
  "some r = Then r (Many r)"

definition lit :: "char \<Rightarrow> regex" where
  "lit c = Class (\<lambda>x. x = c)"

text \<open>
  The two patterns of \<open>normalizeTimeTo24\<close>, \<open>/^(\d{1,2}):(\d{2})$/\<close> and
  \<open>/^(\d{1,2})(?::(\d{2}))?\s*(am|pm)$/\<close>, as patterns without their groups:
  \<open>match_hhmm\<close> and \<open>match_ampm\<close> are proved to match exactly their words.
\<close>

definition digit :: regex where
  "digit = Class isDigit"

definition opt :: "regex \<Rightarrow> regex" where
  "opt r = Or r Empty"

definition hhmmRegex :: regex where
  "hhmmRegex = Then digit (Then (opt digit) (Then (lit (CHR '':'')) (Then digit digit)))"

definition ampmRegex :: regex where
  "ampmRegex =
     Then digit (Then (opt digit)
       (Then (opt (Then (lit (CHR '':'')) (Then digit digit)))
         (Then (Many (Class isWhiteSpace))
           (Or (Then (lit (CHR ''a'')) (lit (CHR ''m''))) (Then (lit (CHR ''p'')) (lit (CHR ''m'')))))))"

section \<open>The Booking document and its pre-save hook\<close>

text \<open>The pattern \<open>/^[^\s@]+@[^\s@]+\.[^\s@]+$/\<close> of \<open>isValidEmail\<close>.\<close>

definition emailRegex :: regex where
  "emailRegex =
     (let plain = Class (\<lambda>c. \<not> (isWhiteSpace c \<or> c = CHR ''@''))
      in Then (some plain) (Then (lit (CHR ''@''))
           (Then (some plain) (Then (lit (CHR ''.'')) (some plain)))))"

definition isValidEmail :: "string \<Rightarrow> bool" where
  "isValidEmail email = test emailRegex email"

text \<open>
  A booking as the hook sees it: the identity of the referenced event (an \<open>ObjectId\<close>,
  here a number) and the email field. The store holds the Event documents by identity
  and the Booking documents written so far.
\<close>

record booking =
  eventId :: nat
  email :: jsval

record store =
  events :: "nat \<Rightarrow> event option"
  bookings :: "booking list"

text \<open>\<open>Event.exists({ _id: id })\<close>: is there an Event document with this identity.\<close>

definition Event_exists :: "store \<Rightarrow> nat \<Rightarrow> bool" where
  "Event_exists db i = (events db i \<noteq> None)"

text \<open>
  The hook \<open>BookingSchema.pre("save", ...)\<close>: the email test first, the existence query
  second. It changes nothing, so the result is the error thrown, if any.
\<close>

definition preSaveBooking :: "store \<Rightarrow> booking \<Rightarrow> error option" where
  "preSaveBooking db this =
     (if (case email this of JString e \<Rightarrow> \<not> isValidEmail e | _ \<Rightarrow> True)
      then Some (ValidationError ''email'')
      else if \<not> Event_exists db (eventId this) then Some (ReferenceError ''eventId'')
      else None)"

text \<open>
  \<open>save()\<close> runs the hook before it writes, and "throwing an error aborts the save"
  (the comment above the hook): where the hook throws, nothing is written; otherwise the
  document is stored.
\<close>

definition saveBooking :: "store \<Rightarrow> booking \<Rightarrow> error option \<times> store" where
  "saveBooking db this =
     (case preSaveBooking db this of
        Some e \<Rightarrow> (Some e, db)
      | None \<Rightarrow> (None, db\<lparr>bookings := bookings db @ [this]\<rparr>))"

text \<open>
  The email grammar in the words of the specification: \<open>localpart@domain\<close>, neither part
  with white space or \<open>@\<close> in it (\<open>plain\<close>), the local part not empty, and the domain with
  a dot that has at least one character before it and after it.
\<close>

definition plain :: "string \<Rightarrow> bool" where
  "plain w = (\<forall>c\<in>set w. \<not> isWhiteSpace c \<and> c \<noteq> CHR ''@'')"

definition emailGrammar :: "string \<Rightarrow> bool" where
  "emailGrammar s \<longleftrightarrow>
     (\<exists>localpart domain. s = localpart @ ''@'' @ domain \<and> localpart \<noteq> []
        \<and> plain localpart \<and> plain domain
        \<and> (\<exists>a b. domain = a @ ''.'' @ b \<and> a \<noteq> [] \<and> b \<noteq> []))"

section \<open>The connection cache (\<open>connectToDatabase\<close>)\<close>

text \<open>
  \<open>connectToDatabase\<close> is an \<open>async\<close> function over the shared object
  \<open>globalThis.__mongoose\<close>. JavaScript runs one invocation at a time and hands over
  only at an \<open>await\<close>, so an invocation is modelled by the pieces between its awaits:
  \<open>call\<close> runs it from its start to the first \<open>await\<close> (or to its end), and \<open>resume\<close>
  runs it on from the \<open>await\<close> once the awaited promise has settled.

  A handle (the Mongoose instance a connect resolves with) is a number. A promise is
  named by a number too: every promise the function ever awaits is the promise of a
  connect operation it has started, and \<open>attempts\<close> lists these operations in order, each
  with the URI given to \<open>mongoose.connect\<close> and the state of its promise. So the length of
  \<open>attempts\<close> is the number of connect operations started.
\<close>

datatype settled = Pending | Fulfilled nat | Rejected string

record world =
  conn :: "nat option"
  promise :: "nat option"
  attempts :: "(string \<times> settled) list"

text \<open>
  Where an invocation stands: suspended at \<open>await globalWithMongoose.__mongoose.promise\<close>
  (line 56), suspended at \<open>await connectPromise\<close> inside the \<open>try\<close> (line 82), or finished
  with a handle or an error.
\<close>

datatype task =
    AwaitCached nat
  | AwaitOwn nat
  | Returned nat
  | Threw error

definition stateOf :: "world \<Rightarrow> nat \<Rightarrow> settled" where
  "stateOf w p = (if p < length (attempts w) then snd (attempts w ! p) else Pending)"

text \<open>
  From the start to the first \<open>await\<close>. \<open>env\<close> is \<open>process.env.MONGODB_URI\<close> (\<open>None\<close> for
  \<open>undefined\<close>); \<open>?.trim()\<close> trims it where it is defined, and \<open>!MONGODB_URI\<close> holds for
  \<open>undefined\<close> and for the empty string. Where no connection and no promise is cached,
  the \<open>async\<close> arrow function runs up to its own \<open>await mongoose.connect(...)\<close>, which
  starts the connect operation, and its promise is stored in the cache before the
  invocation suspends.
\<close>

definition call :: "string option \<Rightarrow> world \<Rightarrow> task \<times> world" where
  "call env w =
     (let MONGODB_URI = map_option trim env
      in if MONGODB_URI = None \<or> MONGODB_URI = Some [] then (Threw ConfigError, w)
         else
           (case conn w of
              Some h \<Rightarrow> (Returned h, w)
            | None \<Rightarrow>
                (case promise w of
                   Some p \<Rightarrow> (AwaitCached p, w)
                 | None \<Rightarrow>
                     (let p = length (attempts w)
                      in (AwaitOwn p,
                          w\<lparr>attempts := attempts w @ [(the MONGODB_URI, Pending)],
                            promise := Some p\<rparr>)))))"

text \<open>
  From an \<open>await\<close> on. A fulfilled promise gives the handle, which is stored in \<open>conn\<close>
  and returned. A rejected promise throws at the \<open>await\<close>: at line 56 nothing catches
  it; at line 82 the \<open>catch\<close> clears the cached promise and throws it again. An
  invocation whose promise is still pending, or that has finished, stays as it is.
\<close>

definition resume :: "task \<Rightarrow> world \<Rightarrow> task \<times> world" where
  "resume t w =
     (case t of
        AwaitCached p \<Rightarrow>
          (case stateOf w p of
             Pending \<Rightarrow> (t, w)
           | Fulfilled h \<Rightarrow> (Returned h, w\<lparr>conn := Some h\<rparr>)
           | Rejected e \<Rightarrow> (Threw (ConnectError e), w))
      | AwaitOwn p \<Rightarrow>
          (case stateOf w p of
             Pending \<Rightarrow> (t, w)
           | Fulfilled h \<Rightarrow> (Returned h, w\<lparr>conn := Some h\<rparr>)
           | Rejected e \<Rightarrow> (Threw (ConnectError e), w\<lparr>promise := None\<rparr>))
      | _ \<Rightarrow> (t, w))"

text \<open>
  The driver finishes the connect operation \<open>p\<close>: its promise, if pending, settles (a
  promise settles once).
\<close>

definition settle :: "nat \<Rightarrow> settled \<Rightarrow> world \<Rightarrow> world" where
  "settle p r w =
     (if p < length (attempts w) \<and> snd (attempts w ! p) = Pending
      then w\<lparr>attempts := (attempts w)[p := (fst (attempts w ! p), r)]\<rparr> else w)"

text \<open>
  Concurrent callers: a schedule is a list of actions, each atomic. \<open>Call env\<close> is a new
  invocation (with the environment as it is then), \<open>Settle p r\<close> the end of connect
  operation \<open>p\<close>, and \<open>Resume i\<close> runs the \<open>i\<close>-th invocation on. The state is the cache
  together with the invocations made so far.
\<close>

datatype action = Call "string option" | Settle nat settled | Resume nat

fun step :: "action \<Rightarrow> world \<times> task list \<Rightarrow> world \<times> task list" where
  "step (Call env) (w, ts) = (let (t, w') = call env w in (w', ts @ [t]))"
| "step (Settle p r) (w, ts) = (settle p r w, ts)"
| "step (Resume i) (w, ts) =
     (if i < length ts then (let (t, w') = resume (ts ! i) w in (w', ts[i := t])) else (w, ts))"

definition run :: "action list \<Rightarrow> world \<times> task list \<Rightarrow> world \<times> task list" where
  "run acts s = foldl (\<lambda>s a. step a s) s acts"

text \<open>The module's initial cache \<open>{ conn: null, promise: null }\<close>, and no invocation.\<close>

definition start :: "world \<times> task list" where
  "start = (\<lparr>conn = None, promise = None, attempts = []\<rparr>, [])"

text \<open>A connection URI is configured: the variable is set and not blank.\<close>

definition configured :: "string option \<Rightarrow> bool" where
  "configured env \<longleftrightarrow> (\<exists>u. env = Some u \<and> trim u \<noteq> [])"

text \<open>
  The invariant of the schedules in which no connect operation fails: either nothing
  has been started and every invocation so far failed for want of a URI, or operation 0
  is the only one, is cached, and every invocation awaits it or has returned its handle.
\<close>

definition taskOk :: "world \<Rightarrow> task \<Rightarrow> bool" where
  "taskOk w t \<longleftrightarrow>
     t = Threw ConfigError \<or> t = AwaitOwn 0 \<or> t = AwaitCached 0
     \<or> (\<exists>h. t = Returned h \<and> stateOf w 0 = Fulfilled h)"

definition single :: "world \<times> task list \<Rightarrow> bool" where
  "single s \<longleftrightarrow>
     (case s of (w, ts) \<Rightarrow>
        (promise w = None \<and> conn w = None \<and> attempts w = [] \<and> (\<forall>t\<in>set ts. t = Threw ConfigError))
      \<or> (promise w = Some 0 \<and> length (attempts w) = 1 \<and> (\<forall>e. stateOf w 0 \<noteq> Rejected e)
          \<and> (\<forall>h. conn w = Some h \<longrightarrow> stateOf w 0 = Fulfilled h)
          \<and> (\<forall>t\<in>set ts. taskOk w t)))"

chapter \<open>Properties\<close>

section \<open>Characters, digits and padding\<close>

lemma isDigit_not_ws: "isDigit c \<Longrightarrow> \<not> isWhiteSpace c"
  by (auto simp: isDigit_def isWhiteSpace_def Let_def)

lemma colon_not_digit: "\<not> isDigit (CHR '':'')"
  by (simp add: isDigit_def)

lemma takeWhile_app_stop: "list_all P xs \<Longrightarrow> (r = [] \<or> \<not> P (hd r)) \<Longrightarrow> takeWhile P (xs @ r) = xs"
  by (induction xs) (cases r; auto)+

lemma dropWhile_app_stop: "list_all P xs \<Longrightarrow> (r = [] \<or> \<not> P (hd r)) \<Longrightarrow> dropWhile P (xs @ r) = r"
  by (induction xs) (cases r; auto)+

lemma digitValue_digitChar: "d < 10 \<Longrightarrow> digitValue (digitChar d) = d"
  by (simp add: digitValue_def digitChar_def)

lemma isDigit_digitChar: "d < 10 \<Longrightarrow> isDigit (digitChar d)"
  by (simp add: isDigit_def digitChar_def)

lemma digitChar_0: "digitChar 0 = CHR ''0''"
  by (simp add: digitChar_def char_of_eq_iff)

lemma String_lt_100: "n < 100 \<Longrightarrow> padStart 2 (String n) = [digitChar (n div 10), digitChar (n mod 10)]"
  by (auto simp: padStart_def digitChar_0 String.simps)

lemma toLowerCaseChar_digit: "isDigit c \<Longrightarrow> toLowerCaseChar c = c"
  by (auto simp: isDigit_def toLowerCaseChar_def Let_def)

section \<open>Time normalization\<close>

lemma match_hhmm_Some:
  "match_hhmm t = Some (H, M) \<longleftrightarrow>
     t = H @ CHR '':'' # M \<and> (length H = 1 \<or> length H = 2) \<and> length M = 2
       \<and> list_all isDigit H \<and> list_all isDigit M"
proof
  assume a: "match_hhmm t = Some (H, M)"
  define r where "r = dropWhile isDigit t"
  from a have H: "H = takeWhile isDigit t" and M: "M = tl r"
    and c: "1 \<le> length H" "length H \<le> 2" "r \<noteq> []" "hd r = CHR '':''" "length M = 2" "list_all isDigit M"
    by (auto simp: match_hhmm_def Let_def r_def split: if_splits)
  have "t = H @ r" by (simp add: H r_def)
  moreover have "r = CHR '':'' # M" using c M by (cases r) auto
  moreover have "list_all isDigit H" by (simp add: H list_all_iff) (meson set_takeWhileD)
  ultimately show "t = H @ CHR '':'' # M \<and> (length H = 1 \<or> length H = 2) \<and> length M = 2
       \<and> list_all isDigit H \<and> list_all isDigit M"
    using c by auto
next
  assume b: "t = H @ CHR '':'' # M \<and> (length H = 1 \<or> length H = 2) \<and> length M = 2
       \<and> list_all isDigit H \<and> list_all isDigit M"
  then have "takeWhile isDigit t = H" "dropWhile isDigit t = CHR '':'' # M"
    by (simp_all add: takeWhile_app_stop dropWhile_app_stop colon_not_digit)
  with b show "match_hhmm t = Some (H, M)"
    by (auto simp: match_hhmm_def Let_def)
qed

lemma period_facts:
  "p = ''am'' \<or> p = ''pm'' \<Longrightarrow> p \<noteq> [] \<and> \<not> isWhiteSpace (hd p) \<and> \<not> isDigit (hd p) \<and> hd p \<noteq> CHR '':''"
  by (auto simp: isWhiteSpace_def isDigit_def)

lemma match_ampm_Some:
  "match_ampm t = Some (H, G, p) \<longleftrightarrow>
     (\<exists>W. t = H @ optMinute G @ W @ p \<and> (length H = 1 \<or> length H = 2) \<and> list_all isDigit H
        \<and> (case G of None \<Rightarrow> True | Some d \<Rightarrow> length d = 2 \<and> list_all isDigit d)
        \<and> list_all isWhiteSpace W \<and> (p = ''am'' \<or> p = ''pm''))"
  (is "?L \<longleftrightarrow> ?R")
proof
  assume a: ?L
  define r where "r = dropWhile isDigit t"
  define c where "c \<longleftrightarrow> r \<noteq> [] \<and> hd r = CHR '':'' \<and> length (take 2 (tl r)) = 2 \<and> list_all isDigit (take 2 (tl r))"
  define r' where "r' = (if c then drop 2 (tl r) else r)"
  from a have H: "H = takeWhile isDigit t" and lh: "length H = 1 \<or> length H = 2"
    and G: "G = (if c then Some (take 2 (tl r)) else None)"
    and p: "p = dropWhile isWhiteSpace r'" "p = ''am'' \<or> p = ''pm''"
    by (auto simp: match_ampm_def Let_def r_def c_def r'_def split: if_splits)
  have t: "t = H @ r" by (simp add: H r_def)
  have dH: "list_all isDigit H" by (simp add: H list_all_iff) (meson set_takeWhileD)
  have r: "r = optMinute G @ r'"
  proof (cases c)
    case True
    then have "r = CHR '':'' # tl r" by (cases r) (auto simp: c_def)
    then have "r = CHR '':'' # take 2 (tl r) @ drop 2 (tl r)" by simp
    with True show ?thesis by (simp add: G r'_def optMinute_def)
  next
    case False
    then show ?thesis by (simp add: G r'_def optMinute_def)
  qed
  have r'': "r' = takeWhile isWhiteSpace r' @ p" by (simp add: p)
  have W: "list_all isWhiteSpace (takeWhile isWhiteSpace r')"
    by (simp add: list_all_iff) (meson set_takeWhileD)
  have Gok: "(case G of None \<Rightarrow> True | Some d \<Rightarrow> length d = 2 \<and> list_all isDigit d)"
    by (auto simp: G c_def)
  show ?R
    apply (rule exI[of _ "takeWhile isWhiteSpace r'"])
    using t r r'' W Gok dH lh p(2) by auto
next
  assume ?R
  then obtain W where t: "t = H @ optMinute G @ W @ p"
    and lh: "length H = 1 \<or> length H = 2" and dH: "list_all isDigit H"
    and Gok: "(case G of None \<Rightarrow> True | Some d \<Rightarrow> length d = 2 \<and> list_all isDigit d)"
    and W: "list_all isWhiteSpace W" and p: "p = ''am'' \<or> p = ''pm''"
    by blast
  note pf = period_facts[OF p]
  have wp: "W @ p \<noteq> [] \<and> \<not> isDigit (hd (W @ p)) \<and> hd (W @ p) \<noteq> CHR '':''"
  proof (cases W)
    case Nil
    then show ?thesis using pf by simp
  next
    case (Cons w ws)
    with W have "isWhiteSpace w" by simp
    then have "\<not> isDigit w \<and> w \<noteq> CHR '':''"
      using isDigit_not_ws by (auto simp: isWhiteSpace_def)
    with Cons show ?thesis by simp
  qed
  have stop: "optMinute G @ W @ p = [] \<or> \<not> isDigit (hd (optMinute G @ W @ p))"
    using wp by (cases G) (auto simp: optMinute_def colon_not_digit)
  have tk: "takeWhile isDigit t = H" and dr: "dropWhile isDigit t = optMinute G @ W @ p"
    unfolding t using dH stop by (rule takeWhile_app_stop, rule dropWhile_app_stop)
  have dp: "dropWhile isWhiteSpace (W @ p) = p"
    using W pf by (intro dropWhile_app_stop) auto
  show ?L
  proof (cases G)
    case None
    then show ?thesis
      using tk dr lh wp dp p by (auto simp: match_ampm_def Let_def optMinute_def)
  next
    case (Some d)
    then show ?thesis
      using tk dr lh Gok dp p by (auto simp: match_ampm_def Let_def optMinute_def)
  qed
qed

lemma hhmm_zeroPadded: "h < 100 \<Longrightarrow> m < 100 \<Longrightarrow> hhmm h m = zeroPadded h m"
  by (simp add: hhmm_def zeroPadded_def String_lt_100)

lemma directBlock_iff:
  "directBlock t = Some out \<longleftrightarrow>
     (\<exists>h m. time24 t h m \<and> h < 24 \<and> m < 60 \<and> out = zeroPadded h m)"
proof
  assume "directBlock t = Some out"
  then obtain g1 g2 where m: "match_hhmm t = Some (g1, g2)"
    and r: "parseInt g1 < 24" "parseInt g2 < 60" and o: "out = hhmm (parseInt g1) (parseInt g2)"
    by (auto simp: directBlock_def Let_def split: option.splits if_splits)
  from m have "time24 t (parseInt g1) (parseInt g2)"
    unfolding match_hhmm_Some time24_def by auto
  with r o show "\<exists>h m. time24 t h m \<and> h < 24 \<and> m < 60 \<and> out = zeroPadded h m"
    by (auto simp: hhmm_zeroPadded)
next
  assume "\<exists>h m. time24 t h m \<and> h < 24 \<and> m < 60 \<and> out = zeroPadded h m"
  then obtain H M where "match_hhmm t = Some (H, M)" "parseInt H < 24" "parseInt M < 60"
    "out = zeroPadded (parseInt H) (parseInt M)"
    unfolding match_hhmm_Some time24_def by auto
  then show "directBlock t = Some out"
    by (simp add: directBlock_def hhmm_zeroPadded)
qed

lemma ampmBlock_iff:
  "ampmBlock t = Some out \<longleftrightarrow>
     (\<exists>h m. time12 t h m ''am'' \<and> h < 24 \<and> m < 60 \<and> out = zeroPadded (if h = 12 then 0 else h) m)
   \<or> (\<exists>h m. time12 t h m ''pm'' \<and> h \<le> 12 \<and> m < 60 \<and> out = zeroPadded (if h = 12 then 12 else h + 12) m)"
  (is "?L \<longleftrightarrow> ?A \<or> ?P")
proof
  assume ?L
  then obtain g1 g2 p where m: "match_ampm t = Some (g1, g2, p)"
    by (auto simp: ampmBlock_def split: option.splits)
  define h where "h = parseInt g1"
  define mi where "mi = (case g2 of None \<Rightarrow> 0 | Some d \<Rightarrow> parseInt d)"
  from m have t12: "time12 t h mi p" and p: "p = ''am'' \<or> p = ''pm''"
    unfolding match_ampm_Some time12_def h_def mi_def
    by (auto split: option.splits)
  from p show "?A \<or> ?P"
  proof
    assume am: "p = ''am''"
    with \<open>?L\<close> m have "h < 24 \<and> mi < 60 \<and> out = zeroPadded (if h = 12 then 0 else h) mi"
      by (auto simp: ampmBlock_def Let_def h_def mi_def hhmm_zeroPadded split: if_splits)
    with t12 am show ?thesis by blast
  next
    assume pm: "p = ''pm''"
    with \<open>?L\<close> m have "h \<le> 12 \<and> mi < 60 \<and> out = zeroPadded (if h = 12 then 12 else h + 12) mi"
      by (auto simp: ampmBlock_def Let_def h_def mi_def hhmm_zeroPadded split: if_splits)
    with t12 pm show ?thesis by blast
  qed
next
  assume "?A \<or> ?P"
  then obtain h m p where t12: "time12 t h m p"
    and c: "(p = ''am'' \<and> h < 24 \<and> out = zeroPadded (if h = 12 then 0 else h) m)
          \<or> (p = ''pm'' \<and> h \<le> 12 \<and> out = zeroPadded (if h = 12 then 12 else h + 12) m)"
    and m: "m < 60"
    by blast
  from t12 obtain H G where ma: "match_ampm t = Some (H, G, p)" and h: "h = parseInt H"
    and mi: "m = (case G of None \<Rightarrow> 0 | Some d \<Rightarrow> parseInt d)"
    unfolding time12_def
  proof (elim exE conjE)
    fix H G W
    assume a: "t = H @ optMinute G @ W @ p" "length H = 1 \<or> length H = 2" "list_all isDigit H"
      "h = parseInt H" "case G of None \<Rightarrow> m = 0 | Some d \<Rightarrow> length d = 2 \<and> list_all isDigit d \<and> m = parseInt d"
      "list_all isWhiteSpace W" "p = ''am'' \<or> p = ''pm''"
    assume r: "\<And>H G. match_ampm t = Some (H, G, p) \<Longrightarrow> h = parseInt H \<Longrightarrow>
      m = (case G of None \<Rightarrow> 0 | Some d \<Rightarrow> parseInt d) \<Longrightarrow> thesis"
    have "match_ampm t = Some (H, G, p)"
      unfolding match_ampm_Some using a by (auto split: option.splits)
    moreover have "m = (case G of None \<Rightarrow> 0 | Some d \<Rightarrow> parseInt d)"
      using a(5) by (auto split: option.splits)
    ultimately show thesis using r a(4) by blast
  qed
  from c show ?L
  proof
    assume "p = ''am'' \<and> h < 24 \<and> out = zeroPadded (if h = 12 then 0 else h) m"
    then show ?thesis using ma h mi m
      by (auto simp: ampmBlock_def Let_def hhmm_zeroPadded)
  next
    assume "p = ''pm'' \<and> h \<le> 12 \<and> out = zeroPadded (if h = 12 then 12 else h + 12) m"
    then show ?thesis using ma h mi m
      by (auto simp: ampmBlock_def Let_def hhmm_zeroPadded)
  qed
qed

lemma time24_not_time12: "time24 t h m \<Longrightarrow> \<not> time12 t h' m' p"
proof
  assume a: "time24 t h m" and b: "time12 t h' m' p"
  from a obtain H M where t: "t = H @ '':'' @ M" and M: "length M = 2" "list_all isDigit M"
    unfolding time24_def by blast
  then have "M \<noteq> []" by auto
  with t M have "isDigit (last t)" by (auto simp: list_all_iff)
  moreover from b obtain X where "t = X @ p" and p: "p = ''am'' \<or> p = ''pm''"
    unfolding time12_def by (metis append.assoc)
  then have "last t = CHR ''m''" by auto
  ultimately show False by (simp add: isDigit_def)
qed

lemma time12_example: "time12 ''13:30 am'' 13 30 ''am''"
  unfolding time12_def
  apply (rule exI[of _ "''13''"])
  apply (rule exI[of _ "Some ''30''"])
  apply (rule exI[of _ "'' ''"])
  apply (simp add: optMinute_def parseInt_def digitValue_def isDigit_def isWhiteSpace_def)
  done

text \<open>
  Claim C1, as the code has it. With \<open>t\<close> the input trimmed and in lower case,
  \<open>normalizeTimeTo24\<close> returns \<open>out\<close> exactly when
  \<^item> \<open>t\<close> is \<open>H:MM\<close> or \<open>HH:MM\<close> with hour 0-23 and minute 0-59, and \<open>out\<close> is the
    zero-padded \<open>HH:MM\<close>; or
  \<^item> \<open>t\<close> is \<open>H[:MM]\<close>, optional white space and \<open>am\<close>, with hour 0-23 and minute 0-59
    (0 if absent), and \<open>out\<close> is the zero-padded time with hour 12 turned into 0 and
    every other hour kept; or
  \<^item> \<open>t\<close> is \<open>H[:MM]\<close>, optional white space and \<open>pm\<close>, with hour 0-12 and minute 0-59
    (0 if absent), and \<open>out\<close> is the zero-padded time with hour 12 kept and 12 added to
    every other hour.
  Every other input fails, and the only failure is \<open>ValidationError ''time''\<close>. So
  \<open>9:30 AM\<close> gives \<open>09:30\<close>, \<open>9:30pm\<close> gives \<open>21:30\<close>, \<open>12 am\<close> gives \<open>00:00\<close>, \<open>12 pm\<close>
  gives \<open>12:00\<close> and \<open>25:00\<close> fails. The hour of the 12-hour form is not restricted to
  1-12: the range test is on the converted hour.
\<close>

theorem normalizeTimeTo24_grammar:
  "(normalizeTimeTo24 input = Inr out \<longleftrightarrow>
      (\<exists>h m. time24 (toLowerCase (trim input)) h m \<and> h < 24 \<and> m < 60 \<and> out = zeroPadded h m)
    \<or> (\<exists>h m. time12 (toLowerCase (trim input)) h m ''am'' \<and> h < 24 \<and> m < 60
            \<and> out = zeroPadded (if h = 12 then 0 else h) m)
    \<or> (\<exists>h m. time12 (toLowerCase (trim input)) h m ''pm'' \<and> h \<le> 12 \<and> m < 60
            \<and> out = zeroPadded (if h = 12 then 12 else h + 12) m))
   \<and> (normalizeTimeTo24 input = Inl e \<longrightarrow> e = ValidationError ''time'')
   \<and> normalizeTimeTo24 ''9:30 AM'' = Inr ''09:30''
   \<and> normalizeTimeTo24 ''9:30pm'' = Inr ''21:30''
   \<and> normalizeTimeTo24 ''12 am'' = Inr ''00:00''
   \<and> normalizeTimeTo24 ''12 pm'' = Inr ''12:00''
   \<and> normalizeTimeTo24 ''25:00'' = Inl (ValidationError ''time'')"
proof -
  define t where "t = toLowerCase (trim input)"
  have n: "normalizeTimeTo24 input =
        (case directBlock t of Some x \<Rightarrow> Inr x
         | None \<Rightarrow> (case ampmBlock t of Some x \<Rightarrow> Inr x | None \<Rightarrow> Inl (ValidationError ''time'')))"
    unfolding normalizeTimeTo24_def t_def Let_def by (rule refl)
  have excl: "ampmBlock t = None" if "directBlock t = Some x" for x
  proof (cases "ampmBlock t")
    case None
    then show ?thesis .
  next
    case (Some y)
    from that obtain h m where "time24 t h m" unfolding directBlock_iff by blast
    moreover from Some obtain h' m' p where "time12 t h' m' p" unfolding ampmBlock_iff by blast
    ultimately show ?thesis using time24_not_time12 by blast
  qed
  have "normalizeTimeTo24 input = Inr out \<longleftrightarrow> directBlock t = Some out \<or> ampmBlock t = Some out"
    unfolding n using excl by (auto split: option.splits)
  moreover have "normalizeTimeTo24 input = Inl e \<longrightarrow> e = ValidationError ''time''"
    unfolding n by (auto split: option.splits)
  moreover have "normalizeTimeTo24 ''9:30 AM'' = Inr ''09:30''" by code_simp
  moreover have "normalizeTimeTo24 ''9:30pm'' = Inr ''21:30''" by code_simp
  moreover have "normalizeTimeTo24 ''12 am'' = Inr ''00:00''" by code_simp
  moreover have "normalizeTimeTo24 ''12 pm'' = Inr ''12:00''" by code_simp
  moreover have "normalizeTimeTo24 ''25:00'' = Inl (ValidationError ''time'')" by code_simp
  ultimately show ?thesis
    unfolding directBlock_iff ampmBlock_iff t_def by blast
qed

text \<open>
  The theorem at \<open>13:30 AM\<close>: the second grammar applies with hour 13 and minute 30, so
  the input is accepted.
\<close>

theorem normalizeTimeTo24_grammar_witness:
  "normalizeTimeTo24 ''13:30 AM'' = Inr ''13:30''"
proof -
  have t: "toLowerCase (trim ''13:30 AM'') = ''13:30 am''" by code_simp
  have z: "zeroPadded 13 30 = ''13:30''" by code_simp
  have "\<exists>h m. time12 (toLowerCase (trim ''13:30 AM'')) h m ''am'' \<and> h < 24 \<and> m < 60
            \<and> ''13:30'' = zeroPadded (if h = 12 then 0 else h) m"
    apply (rule exI[of _ 13])
    apply (rule exI[of _ 30])
    using time12_example t z by simp
  then show ?thesis
    using normalizeTimeTo24_grammar[of "''13:30 AM''" "''13:30''"] by blast
qed

text \<open>
  Against C1 as written: \<open>13:30 am\<close> does not fail. The am/pm pattern matches, the hour
  13 is neither changed by \<open>am\<close> nor out of 0-23, and the result is \<open>13:30\<close>.
\<close>

theorem normalizeTimeTo24_1330am_accepted:
  "normalizeTimeTo24 ''13:30 am'' = Inr ''13:30''"
  by code_simp

section \<open>Time normalization is idempotent\<close>

lemma parseInt_two: "a < 10 \<Longrightarrow> b < 10 \<Longrightarrow> parseInt [digitChar a, digitChar b] = 10 * a + b"
  by (simp add: parseInt_def digitValue_digitChar)

lemma colon_plain: "\<not> isWhiteSpace (CHR '':'') \<and> toLowerCaseChar (CHR '':'') = CHR '':''"
  by (simp add: isWhiteSpace_def toLowerCaseChar_def)

lemma zeroPadded_trim: "h < 100 \<Longrightarrow> m < 100 \<Longrightarrow> trim (zeroPadded h m) = zeroPadded h m"
  by (simp add: trim_def zeroPadded_def isDigit_not_ws isDigit_digitChar)

lemma zeroPadded_lower: "h < 100 \<Longrightarrow> m < 100 \<Longrightarrow> toLowerCase (zeroPadded h m) = zeroPadded h m"
  by (simp add: toLowerCase_def zeroPadded_def toLowerCaseChar_digit isDigit_digitChar colon_plain)

lemma zeroPadded_time24: "h < 100 \<Longrightarrow> m < 100 \<Longrightarrow> time24 (zeroPadded h m) h m"
  unfolding time24_def
  apply (rule exI[of _ "[digitChar (h div 10), digitChar (h mod 10)]"])
  apply (rule exI[of _ "[digitChar (m div 10), digitChar (m mod 10)]"])
  apply (simp add: zeroPadded_def isDigit_digitChar parseInt_two)
  done

lemma normalizeTimeTo24_zeroPadded:
  assumes "h < 24" "m < 60"
  shows "normalizeTimeTo24 (zeroPadded h m) = Inr (zeroPadded h m)"
proof -
  have "directBlock (zeroPadded h m) = Some (zeroPadded h m)"
    unfolding directBlock_iff using assms zeroPadded_time24[of h m] by auto
  then show ?thesis
    using assms by (simp add: normalizeTimeTo24_def zeroPadded_trim zeroPadded_lower)
qed

lemma normalizeTimeTo24_canonical:
  assumes "normalizeTimeTo24 input = Inr out"
  shows "\<exists>h m. h < 24 \<and> m < 60 \<and> out = zeroPadded h m"
proof -
  define t where "t = toLowerCase (trim input)"
  from assms have "directBlock t = Some out \<or> ampmBlock t = Some out"
    by (auto simp: normalizeTimeTo24_def Let_def t_def split: option.splits)
  then show ?thesis
  proof
    assume "directBlock t = Some out"
    then show ?thesis unfolding directBlock_iff by blast
  next
    assume "ampmBlock t = Some out"
    then consider h m where "h < 24" "m < 60" "out = zeroPadded (if h = 12 then 0 else h) m"
      | h m where "h \<le> 12" "m < 60" "out = zeroPadded (if h = 12 then 12 else h + 12) m"
      unfolding ampmBlock_iff by blast
    then show ?thesis
    proof cases
      case 1
      then show ?thesis by (intro exI[of _ "if h = 12 then 0 else h"] exI[of _ m]) auto
    next
      case 2
      then show ?thesis by (intro exI[of _ "if h = 12 then 12 else h + 12"] exI[of _ m]) auto
    qed
  qed
qed

lemma normalizeTimeTo24_idem:
  "normalizeTimeTo24 input = Inr out \<Longrightarrow> normalizeTimeTo24 out = Inr out"
  using normalizeTimeTo24_canonical normalizeTimeTo24_zeroPadded by blast

section \<open>The pre-save hook of an Event: the presence checks\<close>

lemma checkRequired_head:
  "checkRequired ((f, g) # rest) doc =
     (if missingText (g doc) then Some (ValidationError f) else checkRequired rest doc)"
  by (cases "g doc") (simp_all add: missingText_def)

lemma checkRequired_first:
  "i < length fs \<Longrightarrow> \<forall>j<i. \<not> missingText (snd (fs ! j) doc) \<Longrightarrow> missingText (snd (fs ! i) doc)
     \<Longrightarrow> checkRequired fs doc = Some (ValidationError (fst (fs ! i)))"
proof (induction fs arbitrary: i)
  case Nil
  then show ?case by simp
next
  case (Cons a fs)
  obtain f g where a: "a = (f, g)" by (cases a)
  show ?case
  proof (cases i)
    case 0
    with Cons.prems a show ?thesis by (simp add: checkRequired_head del: checkRequired.simps(2))
  next
    case (Suc k)
    with Cons.prems have "\<not> missingText (g doc)" using a by force
    moreover from Cons.prems Suc have "checkRequired fs doc = Some (ValidationError (fst (fs ! k)))"
      by (intro Cons.IH) auto
    ultimately show ?thesis using a Suc by (simp add: checkRequired_head del: checkRequired.simps(2))
  qed
qed

lemma checkRequired_None:
  "checkRequired fs doc = None \<longleftrightarrow> (\<forall>f\<in>set fs. \<not> missingText (snd f doc))"
  by (induction fs) (auto simp: checkRequired_head simp del: checkRequired.simps(2) split: if_splits)

lemma isEmptyOrNoArray_missingList: "isEmptyOrNoArray v = missingList v"
  by (cases v) (simp_all add: missingList_def)

text \<open>
  Claim C4. The hook tests the eleven required text fields in the order title,
  description, overview, image, venue, location, date, time, mode, audience, organizer,
  then agenda, then tags, before it rewrites anything: the first text field that is
  absent, not text or empty after trimming fails the save with a \<open>ValidationError\<close>
  naming that field; with all text fields present a missing agenda fails with
  \<open>ValidationError ''agenda''\<close>, and with the agenda present missing tags fail with
  \<open>ValidationError ''tags''\<close>. In each of these cases the document is left as it was, so
  slug, date and time are not rewritten.
\<close>

theorem preSaveEvent_checks_first:
  "map fst requiredStringFields =
     [''title'', ''description'', ''overview'', ''image'', ''venue'', ''location'', ''date'',
      ''time'', ''mode'', ''audience'', ''organizer'']
   \<and> map (\<lambda>f. snd f doc) requiredStringFields =
     [title doc, description doc, overview doc, image' doc, venue doc, location doc, date doc,
      time doc, mode doc, audience doc, organizer doc]
   \<and> (\<forall>i<length requiredStringFields.
        (\<forall>j<i. \<not> missingText (snd (requiredStringFields ! j) doc))
        \<and> missingText (snd (requiredStringFields ! i) doc)
        \<longrightarrow> preSaveEvent impl titleModified doc
              = (Some (ValidationError (fst (requiredStringFields ! i))), doc))
   \<and> ((\<forall>f\<in>set requiredStringFields. \<not> missingText (snd f doc)) \<and> missingList (agenda doc)
        \<longrightarrow> preSaveEvent impl titleModified doc = (Some (ValidationError ''agenda''), doc))
   \<and> ((\<forall>f\<in>set requiredStringFields. \<not> missingText (snd f doc)) \<and> \<not> missingList (agenda doc)
        \<and> missingList (tags doc)
        \<longrightarrow> preSaveEvent impl titleModified doc = (Some (ValidationError ''tags''), doc))"
proof (intro conjI allI impI)
  show "map fst requiredStringFields =
     [''title'', ''description'', ''overview'', ''image'', ''venue'', ''location'', ''date'',
      ''time'', ''mode'', ''audience'', ''organizer'']"
    by (simp add: requiredStringFields_def)
  show "map (\<lambda>f. snd f doc) requiredStringFields =
     [title doc, description doc, overview doc, image' doc, venue doc, location doc, date doc,
      time doc, mode doc, audience doc, organizer doc]"
    by (simp add: requiredStringFields_def)
next
  fix i
  assume "i < length requiredStringFields"
    and "(\<forall>j<i. \<not> missingText (snd (requiredStringFields ! j) doc))
        \<and> missingText (snd (requiredStringFields ! i) doc)"
  then have "checkRequired requiredStringFields doc
      = Some (ValidationError (fst (requiredStringFields ! i)))"
    by (intro checkRequired_first) auto
  then show "preSaveEvent impl titleModified doc
      = (Some (ValidationError (fst (requiredStringFields ! i))), doc)"
    by (simp add: preSaveEvent_def)
next
  assume "(\<forall>f\<in>set requiredStringFields. \<not> missingText (snd f doc)) \<and> missingList (agenda doc)"
  then have "checkRequired requiredStringFields doc = None" "isEmptyOrNoArray (agenda doc)"
    by (simp_all add: checkRequired_None isEmptyOrNoArray_missingList)
  then show "preSaveEvent impl titleModified doc = (Some (ValidationError ''agenda''), doc)"
    by (simp add: preSaveEvent_def)
next
  assume "(\<forall>f\<in>set requiredStringFields. \<not> missingText (snd f doc)) \<and> \<not> missingList (agenda doc)
        \<and> missingList (tags doc)"
  then have "checkRequired requiredStringFields doc = None" "\<not> isEmptyOrNoArray (agenda doc)"
    "isEmptyOrNoArray (tags doc)"
    by (simp_all add: checkRequired_None isEmptyOrNoArray_missingList)
  then show "preSaveEvent impl titleModified doc = (Some (ValidationError ''tags''), doc)"
    by (simp add: preSaveEvent_def)
qed

section \<open>Slug derivation\<close>

lemma runs_Nil_iff: "runs P xs = [] \<longleftrightarrow> xs = []"
  by (cases xs) (auto split: list.splits)

lemma runs_hd: "xs \<noteq> [] \<Longrightarrow> hd (hd (runs P xs)) = hd xs"
  by (cases xs) (auto split: list.splits)

lemma runs_concat: "concat (runs P xs) = xs"
  by (induction xs) (auto split: list.splits)

lemma runs_nonempty: "r \<in> set (runs P xs) \<Longrightarrow> r \<noteq> []"
  by (induction xs arbitrary: r) (auto split: list.splits if_splits)

lemma runs_uniform: "r \<in> set (runs P xs) \<Longrightarrow> x \<in> set r \<Longrightarrow> P x = P (hd r)"
proof (induction xs arbitrary: r x)
  case Nil
  then show ?case by simp
next
  case (Cons a xs)
  note hyp = Cons.IH and mem = Cons.prems
  show ?case
  proof (cases "runs P xs")
    case Nil
    with mem show ?thesis by simp
  next
    case (Cons q qs)
    have ih: "\<And>y. y \<in> set q \<Longrightarrow> P y = P (hd q)"
      "\<And>r y. r \<in> set qs \<Longrightarrow> y \<in> set r \<Longrightarrow> P y = P (hd r)"
      using hyp Cons by simp_all
    from mem Cons show ?thesis
      by (auto split: if_splits simp: ih)
  qed
qed

text \<open>The runs are maximal: neighbours differ on \<open>P\<close>.\<close>

lemma runs_maximal: "runs P xs = us @ r1 # r2 # vs \<Longrightarrow> P (hd r1) \<noteq> P (hd r2)"
proof (induction xs arbitrary: us r1)
  case Nil
  then show ?case by simp
next
  case (Cons x xs)
  note hyp = Cons.IH and eq = Cons.prems
  show ?case
  proof (cases "runs P xs")
    case Nil
    with eq show ?thesis by (cases us) (auto simp: Cons_eq_append_conv)
  next
    case (Cons q qs)
    note tail = Cons
    show ?thesis
    proof (cases "P x = P (hd q)")
      case True
      with tail eq have e: "(x # q) # qs = us @ r1 # r2 # vs" by simp
      show ?thesis
      proof (cases us)
        case Nil
        with e have r: "r1 = x # q" "qs = r2 # vs" by simp_all
        with tail have "runs P xs = [] @ q # r2 # vs" by simp
        from hyp[OF this] r(1) True show ?thesis by simp
      next
        case (Cons u us')
        with e have "qs = us' @ r1 # r2 # vs" by simp
        with tail have "runs P xs = (q # us') @ r1 # r2 # vs" by simp
        from hyp[OF this] show ?thesis .
      qed
    next
      case False
      with tail eq have e: "[x] # q # qs = us @ r1 # r2 # vs" by simp
      show ?thesis
      proof (cases us)
        case Nil
        with e have "r1 = [x]" "r2 = q" by simp_all
        with False show ?thesis by simp
      next
        case (Cons u us')
        with e have "q # qs = us' @ r1 # r2 # vs" by simp
        with tail have "runs P xs = us' @ r1 # r2 # vs" by simp
        from hyp[OF this] show ?thesis .
      qed
    qed
  qed
qed

lemma dashRuns_Nil: "dashRuns [] = []"
  by (simp add: dashRuns_def)

lemma dashRuns_slug: "isSlugChar c \<Longrightarrow> dashRuns (c # cs) = c # dashRuns cs"
  by (auto simp: dashRuns_def split: list.splits)

lemma dashRuns_other_step:
  "\<not> isSlugChar c \<Longrightarrow> \<not> isSlugChar d \<Longrightarrow> dashRuns (c # d # cs) = dashRuns (d # cs)"
  by (auto simp: dashRuns_def split: list.splits)

lemma dashRuns_other_stop:
  "\<not> isSlugChar c \<Longrightarrow> cs = [] \<or> isSlugChar (hd cs) \<Longrightarrow> dashRuns (c # cs) = CHR ''-'' # dashRuns cs"
  by (cases cs) (auto simp: dashRuns_def split: list.splits)

lemma dashRuns_other:
  "\<not> isSlugChar c \<Longrightarrow>
     dashRuns (c # cs) = CHR ''-'' # dashRuns (dropWhile (\<lambda>x. \<not> isSlugChar x) cs)"
proof (induction cs arbitrary: c)
  case Nil
  then show ?case by (simp add: dashRuns_other_stop)
next
  case (Cons d cs)
  show ?case
  proof (cases "isSlugChar d")
    case True
    with Cons.prems show ?thesis by (simp add: dashRuns_other_stop)
  next
    case False
    with Cons.prems have "dashRuns (c # d # cs) = dashRuns (d # cs)"
      by (rule dashRuns_other_step)
    with False Cons.IH[of d] show ?thesis by simp
  qed
qed

lemma replaceRuns_dashRuns: "replaceRuns s = dashRuns s"
  by (induction s rule: replaceRuns.induct) (simp_all add: dashRuns_Nil dashRuns_slug dashRuns_other)

lemma dash_not_slug: "\<not> isSlugChar (CHR ''-'')"
  by (simp add: isSlugChar_def)

lemma replaceRuns_hd_slug: "s \<noteq> [] \<Longrightarrow> isSlugChar (hd s) \<Longrightarrow> hd (replaceRuns s) = hd s \<and> replaceRuns s \<noteq> []"
  by (cases s) auto

lemma dropWhile_other_cases:
  "dropWhile (\<lambda>x. \<not> isSlugChar x) cs = [] \<or> isSlugChar (hd (dropWhile (\<lambda>x. \<not> isSlugChar x) cs))"
  using hd_dropWhile[of "\<lambda>x. \<not> isSlugChar x" cs] by auto

lemma replaceRuns_after_drop:
  "replaceRuns (dropWhile (\<lambda>x. \<not> isSlugChar x) cs) = [] \<or>
   isSlugChar (hd (replaceRuns (dropWhile (\<lambda>x. \<not> isSlugChar x) cs)))"
proof -
  define y where "y = dropWhile (\<lambda>x. \<not> isSlugChar x) cs"
  have "y = [] \<or> isSlugChar (hd y)" unfolding y_def by (rule dropWhile_other_cases)
  then have "replaceRuns y = [] \<or> isSlugChar (hd (replaceRuns y))"
    by (cases y) auto
  then show ?thesis by (simp add: y_def)
qed

lemma replaceRuns_front: "replaceRuns x = CHR ''-'' # r \<Longrightarrow> r = [] \<or> hd r \<noteq> CHR ''-''"
proof (cases x)
  case Nil
  then show "replaceRuns x = CHR ''-'' # r \<Longrightarrow> r = [] \<or> hd r \<noteq> CHR ''-''" by simp
next
  case (Cons c cs)
  assume a: "replaceRuns x = CHR ''-'' # r"
  show "r = [] \<or> hd r \<noteq> CHR ''-''"
  proof (cases "isSlugChar c")
    case True
    with a Cons show ?thesis using dash_not_slug by auto
  next
    case False
    with a Cons have "r = replaceRuns (dropWhile (\<lambda>x. \<not> isSlugChar x) cs)" by simp
    then show ?thesis using replaceRuns_after_drop[of cs] dash_not_slug by auto
  qed
qed

lemma replaceRuns_back: "replaceRuns x = r @ [CHR ''-''] \<Longrightarrow> r = [] \<or> last r \<noteq> CHR ''-''"
proof (induction x arbitrary: r rule: replaceRuns.induct)
  case 1
  then show ?case by simp
next
  case (2 c cs)
  show ?case
  proof (cases "isSlugChar c")
    case True
    with "2.prems" have e: "c # replaceRuns cs = r @ [CHR ''-'']" by simp
    show ?thesis
    proof (cases r)
      case Nil
      with e True show ?thesis using dash_not_slug by auto
    next
      case (Cons a r')
      with e have c: "a = c" and "replaceRuns cs = r' @ [CHR ''-'']" by simp_all
      with "2.IH"(1)[OF True] have "r' = [] \<or> last r' \<noteq> CHR ''-''" by simp
      with Cons c True show ?thesis using dash_not_slug by auto
    qed
  next
    case False
    define y where "y = dropWhile (\<lambda>x. \<not> isSlugChar x) cs"
    from False "2.prems" have e: "CHR ''-'' # replaceRuns y = r @ [CHR ''-'']" by (simp add: y_def)
    show ?thesis
    proof (cases r)
      case Nil
      then show ?thesis by simp
    next
      case (Cons a r')
      with e have ry: "replaceRuns y = r' @ [CHR ''-'']" by simp
      with "2.IH"(2)[OF False] have ih: "r' = [] \<or> last r' \<noteq> CHR ''-''" by (simp add: y_def)
      have "r' \<noteq> []"
      proof
        assume "r' = []"
        with ry have "replaceRuns y = [CHR ''-'']" by simp
        with replaceRuns_after_drop[of cs] show False using dash_not_slug by (simp add: y_def)
      qed
      with ih Cons show ?thesis by simp
    qed
  qed
qed

lemma strip_front_once:
  assumes "\<And>r. s = c # r \<Longrightarrow> r = [] \<or> hd r \<noteq> c"
  shows "dropWhile (\<lambda>x. x = c) s = (if s \<noteq> [] \<and> hd s = c then tl s else s)"
proof (cases s)
  case Nil
  then show ?thesis by simp
next
  case (Cons a r)
  show ?thesis
  proof (cases "a = c")
    case True
    with assms[of r] Cons have "r = [] \<or> hd r \<noteq> c" by simp
    then have "dropWhile (\<lambda>x. x = c) r = r" by (cases r) auto
    with True Cons show ?thesis by simp
  next
    case False
    with Cons show ?thesis by simp
  qed
qed

lemma strip_back_once:
  assumes "\<And>r. s = r @ [c] \<Longrightarrow> r = [] \<or> last r \<noteq> c"
  shows "rev (dropWhile (\<lambda>x. x = c) (rev s)) = (if s \<noteq> [] \<and> last s = c then butlast s else s)"
proof (cases s rule: rev_cases)
  case Nil
  then show ?thesis by simp
next
  case (snoc ys a)
  show ?thesis
  proof (cases "a = c")
    case True
    with assms[of ys] snoc have "ys = [] \<or> last ys \<noteq> c" by simp
    then have "dropWhile (\<lambda>x. x = c) (rev ys) = rev ys"
      by (cases ys rule: rev_cases) auto
    with True snoc show ?thesis by simp
  next
    case False
    with snoc show ?thesis by simp
  qed
qed

lemma stripEdgeDashes_replaceRuns: "stripEdgeDashes (replaceRuns x) = stripDashes (replaceRuns x)"
proof -
  define s where "s = replaceRuns x"
  define s1 where "s1 = (if s \<noteq> [] \<and> hd s = CHR ''-'' then tl s else s)"
  have f: "dropWhile (\<lambda>c. c = CHR ''-'') s = s1"
    unfolding s1_def by (rule strip_front_once) (use replaceRuns_front s_def in auto)
  have b: "r = [] \<or> last r \<noteq> CHR ''-''" if "s1 = r @ [CHR ''-'']" for r
  proof (cases "s \<noteq> [] \<and> hd s = CHR ''-''")
    case True
    then have "s = (CHR ''-'' # r) @ [CHR ''-'']" using that by (cases s) (auto simp: s1_def)
    from replaceRuns_back[OF this[unfolded s_def]] show ?thesis by (cases r) auto
  next
    case False
    then have "s = r @ [CHR ''-'']" using that by (auto simp: s1_def)
    from replaceRuns_back[OF this[unfolded s_def]] show ?thesis .
  qed
  have "rev (dropWhile (\<lambda>c. c = CHR ''-'') (rev s1))
      = (if s1 \<noteq> [] \<and> last s1 = CHR ''-'' then butlast s1 else s1)"
    by (rule strip_back_once) (use b in auto)
  then show ?thesis
    unfolding stripDashes_def stripEdgeDashes_def s_def[symmetric] f Let_def s1_def[symmetric] by simp
qed

lemma slugify_kebab: "slugify v = kebab v"
  by (simp add: slugify_def kebab_def stripEdgeDashes_replaceRuns replaceRuns_dashRuns[symmetric])

section \<open>The pre-save hook of an Event: the slug\<close>

lemma preSaveEvent_after_checks:
  assumes "\<forall>f\<in>set requiredStringFields. \<not> missingText (snd f doc)"
    and "\<not> missingList (agenda doc)" and "\<not> missingList (tags doc)"
  shows "slug (snd (preSaveEvent impl titleModified doc))
     = (if titleModified \<or> \<not> truthy (slug doc) then JString (slugify (stringOf (title doc)))
        else slug doc)"
proof -
  have c: "checkRequired requiredStringFields doc = None"
    "\<not> isEmptyOrNoArray (agenda doc)" "\<not> isEmptyOrNoArray (tags doc)"
    using assms by (simp_all add: checkRequired_None isEmptyOrNoArray_missingList)
  show ?thesis
    unfolding preSaveEvent_def Let_def using c
    by (simp split: sum.splits)
qed

lemma slugify_examples:
  "slugify ''Hello, World!'' = ''hello-world''" "slugify ''  Foo_Bar--Baz  '' = ''foo-bar-baz''"
  by code_simp+

lemma sampleEvent_complete:
  "(\<forall>f\<in>set requiredStringFields. \<not> missingText (snd f sampleEvent))
    \<and> \<not> missingList (agenda sampleEvent) \<and> \<not> missingList (tags sampleEvent)"
  by (simp add: requiredStringFields_def sampleEvent_def missingText_def missingList_def
      trim_def isWhiteSpace_def)

section \<open>Saving an Event: the slug\<close>

lemma checkRequiredPath_falsy: "\<not> truthy v \<Longrightarrow> \<not> checkRequiredPath SchemaString v"
  by (cases v) auto

lemma validate_slug: "\<not> truthy (slug this) \<Longrightarrow> ''slug'' \<in> set (validate this)"
  by (simp add: validate_def EventSchema_def checkRequiredPath_falsy)

lemma validate_sampleEvent: "validate sampleEvent = [''slug'']"
  by (simp add: validate_def EventSchema_def sampleEvent_def)

text \<open>
  A save that succeeds has found a slug, so of the hook's test
  \<open>this.isModified("title") || !this.slug\<close> only the first half can hold there: the slug of
  the saved document is the one derived from the title if the title was modified, and
  the slug it had otherwise.
\<close>

lemma saveEvent_saved:
  assumes "fst (saveEvent impl titleModified this) = None"
  shows "slug (snd (saveEvent impl titleModified this))
     = (if titleModified then JString (slugify (stringOf (title this))) else slug this)"
proof -
  from assms have v: "validate this = []" by (auto simp: saveEvent_def split: if_splits)
  then have s: "truthy (slug this)" using validate_slug[of this] by auto
  from assms v have "fst (preSaveEvent impl titleModified this) = None"
    by (auto simp: saveEvent_def split: prod.splits option.splits)
  then have c: "checkRequired requiredStringFields this = None"
    "\<not> isEmptyOrNoArray (agenda this)" "\<not> isEmptyOrNoArray (tags this)"
    by (auto simp: preSaveEvent_def split: option.splits if_splits)
  have "slug (snd (preSaveEvent impl titleModified this))
     = (if titleModified then JString (slugify (stringOf (title this))) else slug this)"
    unfolding preSaveEvent_def Let_def using c s by (simp split: sum.splits)
  moreover have "snd (saveEvent impl titleModified this) = snd (preSaveEvent impl titleModified this)"
    using v by (auto simp: saveEvent_def split: prod.splits option.splits)
  ultimately show ?thesis by simp
qed

lemma saveEvent_examples:
  "saveEvent (\<lambda>s. None) False (sampleEvent\<lparr>slug := JString ''kept''\<rparr>)
     = (None, sampleEvent\<lparr>slug := JString ''kept'', time := JString ''21:30''\<rparr>)"
  "slug (snd (saveEvent (\<lambda>s. None) True (sampleEvent\<lparr>slug := JString ''kept''\<rparr>)))
     = JString ''hello-world''"
  by code_simp+

text \<open>
  Claim C3. The claim says that on save the slug is derived from the title when no slug
  is set. The hook is written to do so (its test is
  \<open>this.isModified("title") || !this.slug\<close>, under the comment that the slug is regenerated
  if the title changed or the slug is absent), but the schema declares the slug
  required and the document is validated before the hook runs. So whenever \<open>!this.slug\<close>
  holds (the slug is \<open>undefined\<close>, \<open>null\<close> or the empty string), whether or not the title
  was modified, the save is rejected with a validation error that names the path
  \<open>slug\<close>, and the document is left as it was: no slug is derived. The sample document,
  complete but for its slug, is rejected with the path \<open>slug\<close> alone, although the hook,
  had it run on that document, would have set the slug to \<open>hello-world\<close>.
\<close>

theorem saveEvent_slug_absent:
  "(\<not> truthy (slug this) \<longrightarrow>
      saveEvent impl titleModified this = (Some (SchemaValidation (validate this)), this)
      \<and> ''slug'' \<in> set (validate this))
   \<and> saveEvent impl titleModified sampleEvent = (Some (SchemaValidation [''slug'']), sampleEvent)
   \<and> slug (snd (preSaveEvent impl titleModified sampleEvent)) = JString ''hello-world''"
proof (intro conjI impI)
  assume a: "\<not> truthy (slug this)"
  from validate_slug[OF a] show "''slug'' \<in> set (validate this)" .
  then have "validate this \<noteq> []" by auto
  then show "saveEvent impl titleModified this = (Some (SchemaValidation (validate this)), this)"
    by (simp add: saveEvent_def)
next
  show "saveEvent impl titleModified sampleEvent = (Some (SchemaValidation [''slug'']), sampleEvent)"
    by (simp add: saveEvent_def validate_sampleEvent)
next
  have t: "title sampleEvent = JString ''Hello, World!''" "slug sampleEvent = JUndefined"
    by (simp_all add: sampleEvent_def)
  show "slug (snd (preSaveEvent impl titleModified sampleEvent)) = JString ''hello-world''"
    using preSaveEvent_after_checks[of sampleEvent impl titleModified] sampleEvent_complete t
      slugify_examples(1)
    by simp
qed

text \<open>
  The theorem at the sample document with the empty string for a slug and an unmodified
  title.
\<close>

theorem saveEvent_slug_absent_witness:
  "saveEvent (\<lambda>s. None) False (sampleEvent\<lparr>slug := JString ''''\<rparr>)
     = (Some (SchemaValidation [''slug'']), sampleEvent\<lparr>slug := JString ''''\<rparr>)"
proof -
  have v: "validate (sampleEvent\<lparr>slug := JString ''''\<rparr>) = [''slug'']"
    by (simp add: validate_def EventSchema_def sampleEvent_def)
  have t: "\<not> truthy (slug (sampleEvent\<lparr>slug := JString ''''\<rparr>))" by simp
  from saveEvent_slug_absent[of "sampleEvent\<lparr>slug := JString ''''\<rparr>" "\<lambda>s. None" False,
      THEN conjunct1, THEN mp, OF t, THEN conjunct1]
  show ?thesis unfolding v .
qed

text \<open>
  The theorem at three documents: a blank venue (the fifth field, the four before it
  present), an empty agenda, and absent tags.
\<close>

theorem preSaveEvent_checks_first_witness:
  "preSaveEvent (\<lambda>s. None) True (sampleEvent\<lparr>venue := JString ''  ''\<rparr>)
     = (Some (ValidationError ''venue''), sampleEvent\<lparr>venue := JString ''  ''\<rparr>)
   \<and> preSaveEvent (\<lambda>s. None) True (sampleEvent\<lparr>agenda := JArray []\<rparr>)
     = (Some (ValidationError ''agenda''), sampleEvent\<lparr>agenda := JArray []\<rparr>)
   \<and> preSaveEvent (\<lambda>s. None) True (sampleEvent\<lparr>tags := JUndefined\<rparr>)
     = (Some (ValidationError ''tags''), sampleEvent\<lparr>tags := JUndefined\<rparr>)"
proof -
  let ?v = "sampleEvent\<lparr>venue := JString ''  ''\<rparr>"
  have i: "(4::nat) < length requiredStringFields" "requiredStringFields ! 4 = (''venue'', venue)"
    by (simp_all add: requiredStringFields_def)
  have v: "(\<forall>j<4. \<not> missingText (snd (requiredStringFields ! j) ?v))
      \<and> missingText (snd (requiredStringFields ! 4) ?v)"
    by (simp add: requiredStringFields_def sampleEvent_def missingText_def trim_def
        isWhiteSpace_def less_Suc_eq numeral_nat nth_Cons')
  have a: "(\<forall>f\<in>set requiredStringFields. \<not> missingText (snd f (sampleEvent\<lparr>agenda := JArray []\<rparr>)))
      \<and> missingList (agenda (sampleEvent\<lparr>agenda := JArray []\<rparr>))"
    using sampleEvent_complete by (simp add: requiredStringFields_def missingList_def)
  have g: "(\<forall>f\<in>set requiredStringFields. \<not> missingText (snd f (sampleEvent\<lparr>tags := JUndefined\<rparr>)))
      \<and> \<not> missingList (agenda (sampleEvent\<lparr>tags := JUndefined\<rparr>))
      \<and> missingList (tags (sampleEvent\<lparr>tags := JUndefined\<rparr>))"
    using sampleEvent_complete by (simp add: requiredStringFields_def missingList_def)
  show ?thesis
    using preSaveEvent_checks_first[of ?v "\<lambda>s. None" True]
      preSaveEvent_checks_first[of "sampleEvent\<lparr>agenda := JArray []\<rparr>" "\<lambda>s. None" True]
      preSaveEvent_checks_first[of "sampleEvent\<lparr>tags := JUndefined\<rparr>" "\<lambda>s. None" True]
      i v a g
    by (metis fst_conv)
qed

section \<open>The matcher decides the words of a pattern\<close>

lemma nullable_words: "nullable r \<longleftrightarrow> [] \<in> words r"
  by (induction r) (auto intro: many.none)

lemma many_cons:
  "c # w \<in> many L \<longleftrightarrow> (\<exists>u v. w = u @ v \<and> c # u \<in> L \<and> v \<in> many L)"
proof
  assume "c # w \<in> many L"
  then show "\<exists>u v. w = u @ v \<and> c # u \<in> L \<and> v \<in> many L"
  proof (induction "c # w" arbitrary: w rule: many.induct)
    case (more u v)
    show ?case
    proof (cases u)
      case Nil
      with more show ?thesis by simp
    next
      case (Cons a u')
      with more.hyps(1,2,4) show ?thesis by auto
    qed
  qed
next
  assume "\<exists>u v. w = u @ v \<and> c # u \<in> L \<and> v \<in> many L"
  then obtain u v where "w = u @ v" "c # u \<in> L" "v \<in> many L" by blast
  then show "c # w \<in> many L" using many.more[of "c # u" L v] by simp
qed

lemma after_words: "w \<in> words (after c r) \<longleftrightarrow> c # w \<in> words r"
proof (induction r arbitrary: w)
  case (Then r s)
  show ?case
  proof
    assume "w \<in> words (after c (Then r s))"
    then consider u v where "w = u @ v" "u \<in> words (after c r)" "v \<in> words s"
      | "nullable r" "w \<in> words (after c s)"
      by (auto split: if_splits)
    then show "c # w \<in> words (Then r s)"
    proof cases
      case 1
      then have "c # u \<in> words r" using Then.IH(1) by simp
      with 1 show ?thesis by (auto intro: exI[of _ "c # u"])
    next
      case 2
      then have "[] \<in> words r" "c # w \<in> words s" using Then.IH(2) nullable_words by simp_all
      then show ?thesis by (auto intro: exI[of _ "[]"])
    qed
  next
    assume "c # w \<in> words (Then r s)"
    then obtain u v where uv: "c # w = u @ v" "u \<in> words r" "v \<in> words s" by auto
    show "w \<in> words (after c (Then r s))"
    proof (cases u)
      case Nil
      with uv have "nullable r" "w \<in> words (after c s)" using Then.IH(2) nullable_words by simp_all
      then show ?thesis by simp
    next
      case (Cons a u')
      with uv have "w = u' @ v" "u' \<in> words (after c r)" using Then.IH(1) by simp_all
      with uv(3) show ?thesis by auto
    qed
  qed
next
  case (Many r)
  show ?case
    using Many.IH by (auto simp: many_cons)
qed auto

lemma test_words: "test r s \<longleftrightarrow> s \<in> words r"
  by (induction s arbitrary: r) (simp_all add: nullable_words after_words)

lemma many_Class: "w \<in> many {[c] | c. P c} \<longleftrightarrow> list_all P w"
proof
  show "w \<in> many {[c] | c. P c} \<Longrightarrow> list_all P w"
    by (induction rule: many.induct) auto
  show "list_all P w \<Longrightarrow> w \<in> many {[c] | c. P c}"
  proof (induction w)
    case Nil
    show ?case by (rule many.none)
  next
    case (Cons c w)
    then have "[c] \<in> {[c] | c. P c}" "w \<in> many {[c] | c. P c}" by simp_all
    from many.more[OF this] show ?case by simp
  qed
qed

lemma some_Class: "w \<in> words (some (Class P)) \<longleftrightarrow> w \<noteq> [] \<and> list_all P w"
proof -
  have "w \<in> words (some (Class P)) \<longleftrightarrow> (\<exists>c v. w = [c] @ v \<and> P c \<and> list_all P v)"
    unfolding some_def words.simps many_Class by blast
  then show ?thesis by (cases w) auto
qed

lemma lit_words: "w \<in> words (lit c) \<longleftrightarrow> w = [c]"
  by (auto simp: lit_def)

section \<open>The time patterns and their matching functions\<close>

lemma digit_words: "w \<in> words digit \<longleftrightarrow> (\<exists>c. w = [c] \<and> isDigit c)"
  by (auto simp: digit_def)

lemma opt_words: "w \<in> words (opt r) \<longleftrightarrow> w = [] \<or> w \<in> words r"
  by (auto simp: opt_def)

lemma Then_words: "w \<in> words (Then r s) \<longleftrightarrow> (\<exists>u v. w = u @ v \<and> u \<in> words r \<and> v \<in> words s)"
  by auto

lemma one_or_two: "(\<exists>u v. H = u @ v \<and> u \<in> words digit \<and> v \<in> words (opt digit))
    \<longleftrightarrow> (length H = 1 \<or> length H = 2) \<and> list_all isDigit H"
proof
  assume "\<exists>u v. H = u @ v \<and> u \<in> words digit \<and> v \<in> words (opt digit)"
  then show "(length H = 1 \<or> length H = 2) \<and> list_all isDigit H"
    by (auto simp: digit_words opt_words)
next
  assume a: "(length H = 1 \<or> length H = 2) \<and> list_all isDigit H"
  then obtain c r where H: "H = c # r" by (cases H) auto
  with a have "r = [] \<or> (\<exists>d. r = [d])" by (cases r) auto
  with a H have "H = [c] @ r \<and> [c] \<in> words digit \<and> r \<in> words (opt digit)"
    by (auto simp: digit_words opt_words)
  then show "\<exists>u v. H = u @ v \<and> u \<in> words digit \<and> v \<in> words (opt digit)" by blast
qed

lemma two_digits: "M \<in> words (Then digit digit) \<longleftrightarrow> length M = 2 \<and> list_all isDigit M"
proof
  assume "M \<in> words (Then digit digit)"
  then show "length M = 2 \<and> list_all isDigit M" by (auto simp: digit_def)
next
  assume a: "length M = 2 \<and> list_all isDigit M"
  then obtain c d where "M = [c, d]" by (cases M; cases "tl M") auto
  with a have "M = [c] @ [d]" "[c] \<in> words digit" "[d] \<in> words digit"
    by (auto simp: digit_words)
  then show "M \<in> words (Then digit digit)" unfolding Then_words by blast
qed

lemma hhmm_words:
  "s \<in> words hhmmRegex \<longleftrightarrow>
     (\<exists>H M. s = H @ CHR '':'' # M \<and> (length H = 1 \<or> length H = 2) \<and> length M = 2
        \<and> list_all isDigit H \<and> list_all isDigit M)"
  (is "?L \<longleftrightarrow> ?R")
proof
  assume ?L
  then obtain u r1 where 1: "s = u @ r1" "u \<in> words digit"
    "r1 \<in> words (Then (opt digit) (Then (lit (CHR '':'')) (Then digit digit)))"
    unfolding hhmmRegex_def Then_words[of s] by blast
  from 1(3) obtain v r2 where 2: "r1 = v @ r2" "v \<in> words (opt digit)"
    "r2 \<in> words (Then (lit (CHR '':'')) (Then digit digit))"
    unfolding Then_words[of r1] by blast
  from 2(3) obtain M where 3: "r2 = CHR '':'' # M" "M \<in> words (Then digit digit)"
    unfolding Then_words[of r2] lit_words by auto
  have "(length (u @ v) = 1 \<or> length (u @ v) = 2) \<and> list_all isDigit (u @ v)"
    using 1(2) 2(2) one_or_two[of "u @ v"] by blast
  moreover have "length M = 2 \<and> list_all isDigit M" using 3(2) two_digits by blast
  moreover have "s = (u @ v) @ CHR '':'' # M" using 1(1) 2(1) 3(1) by simp
  ultimately show ?R by blast
next
  assume ?R
  then obtain H M where h: "s = H @ CHR '':'' # M" "(length H = 1 \<or> length H = 2) \<and> list_all isDigit H"
    "length M = 2 \<and> list_all isDigit M"
    by blast
  from h(2) obtain u v where uv: "H = u @ v" "u \<in> words digit" "v \<in> words (opt digit)"
    using one_or_two[of H] by blast
  have m: "M \<in> words (Then digit digit)" using h(3) two_digits by blast
  have "CHR '':'' # M \<in> words (Then (lit (CHR '':'')) (Then digit digit))"
    unfolding Then_words[of "CHR '':'' # M"] lit_words using m by auto
  with uv(3) have "v @ CHR '':'' # M \<in> words (Then (opt digit) (Then (lit (CHR '':'')) (Then digit digit)))"
    unfolding Then_words[of "v @ CHR '':'' # M"] by blast
  with uv(2) have "u @ v @ CHR '':'' # M \<in> words hhmmRegex"
    unfolding hhmmRegex_def Then_words[of "u @ v @ CHR '':'' # M"] by blast
  then show ?L using h(1) uv(1) by simp
qed

lemma match_hhmm_test: "(match_hhmm s \<noteq> None) = test hhmmRegex s"
proof -
  have "match_hhmm s \<noteq> None \<longleftrightarrow> (\<exists>H M. match_hhmm s = Some (H, M))" by auto
  then show ?thesis
    unfolding match_hhmm_Some test_words hhmm_words by simp
qed

lemma minute_words:
  "w \<in> words (opt (Then (lit (CHR '':'')) (Then digit digit))) \<longleftrightarrow>
     (\<exists>G. w = optMinute G \<and> (case G of None \<Rightarrow> True | Some d \<Rightarrow> length d = 2 \<and> list_all isDigit d))"
  (is "?L \<longleftrightarrow> ?R")
proof
  assume ?L
  then consider "w = []" | M where "w = CHR '':'' # M" "M \<in> words (Then digit digit)"
    unfolding opt_words Then_words[of w] lit_words by auto
  then show ?R
  proof cases
    case 1
    then show ?thesis by (intro exI[of _ None]) (simp add: optMinute_def)
  next
    case 2
    then show ?thesis using two_digits[of M] by (intro exI[of _ "Some M"]) (simp add: optMinute_def)
  qed
next
  assume ?R
  then obtain G where g: "w = optMinute G"
    "case G of None \<Rightarrow> True | Some d \<Rightarrow> length d = 2 \<and> list_all isDigit d" by blast
  show ?L
  proof (cases G)
    case None
    with g show ?thesis by (simp add: opt_words optMinute_def)
  next
    case (Some d)
    with g have "d \<in> words (Then digit digit)" using two_digits[of d] by simp
    then have "[CHR '':''] @ d \<in> words (Then (lit (CHR '':'')) (Then digit digit))"
      unfolding Then_words[of "[CHR '':''] @ d"] lit_words by blast
    with g Some show ?thesis by (simp add: opt_words optMinute_def)
  qed
qed

lemma space_words: "w \<in> words (Many (Class isWhiteSpace)) \<longleftrightarrow> list_all isWhiteSpace w"
  by (simp add: many_Class)

lemma period_words:
  "w \<in> words (Or (Then (lit (CHR ''a'')) (lit (CHR ''m''))) (Then (lit (CHR ''p'')) (lit (CHR ''m''))))
     \<longleftrightarrow> w = ''am'' \<or> w = ''pm''"
  by (auto simp: lit_def)

lemma ampm_words:
  "s \<in> words ampmRegex \<longleftrightarrow>
     (\<exists>H G W p. s = H @ optMinute G @ W @ p \<and> (length H = 1 \<or> length H = 2) \<and> list_all isDigit H
        \<and> (case G of None \<Rightarrow> True | Some d \<Rightarrow> length d = 2 \<and> list_all isDigit d)
        \<and> list_all isWhiteSpace W \<and> (p = ''am'' \<or> p = ''pm''))"
  (is "?L \<longleftrightarrow> ?R")
proof
  let ?P = "Or (Then (lit (CHR ''a'')) (lit (CHR ''m''))) (Then (lit (CHR ''p'')) (lit (CHR ''m'')))"
  let ?S = "Many (Class isWhiteSpace)"
  let ?M = "opt (Then (lit (CHR '':'')) (Then digit digit))"
  assume ?L
  then obtain u r1 where 1: "s = u @ r1" "u \<in> words digit"
    "r1 \<in> words (Then (opt digit) (Then ?M (Then ?S ?P)))"
    unfolding ampmRegex_def Then_words[of s] by blast
  from 1(3) obtain v r2 where 2: "r1 = v @ r2" "v \<in> words (opt digit)"
    "r2 \<in> words (Then ?M (Then ?S ?P))"
    unfolding Then_words[of r1] by blast
  from 2(3) obtain m r3 where 3: "r2 = m @ r3" "m \<in> words ?M" "r3 \<in> words (Then ?S ?P)"
    unfolding Then_words[of r2] by blast
  from 3(3) obtain W p where 4: "r3 = W @ p" "W \<in> words ?S" "p \<in> words ?P"
    unfolding Then_words[of r3] by blast
  from 3(2) obtain G where g: "m = optMinute G"
    "case G of None \<Rightarrow> True | Some d \<Rightarrow> length d = 2 \<and> list_all isDigit d"
    unfolding minute_words by blast
  have "(length (u @ v) = 1 \<or> length (u @ v) = 2) \<and> list_all isDigit (u @ v)"
    using 1(2) 2(2) one_or_two[of "u @ v"] by blast
  moreover have "s = (u @ v) @ optMinute G @ W @ p" using 1(1) 2(1) 3(1) 4(1) g(1) by simp
  moreover have "list_all isWhiteSpace W" using 4(2) space_words by blast
  moreover have "p = ''am'' \<or> p = ''pm''" using 4(3) period_words by blast
  ultimately show ?R using g(2) by blast
next
  let ?P = "Or (Then (lit (CHR ''a'')) (lit (CHR ''m''))) (Then (lit (CHR ''p'')) (lit (CHR ''m'')))"
  let ?S = "Many (Class isWhiteSpace)"
  let ?M = "opt (Then (lit (CHR '':'')) (Then digit digit))"
  assume ?R
  then obtain H G W p where h: "s = H @ optMinute G @ W @ p"
    "(length H = 1 \<or> length H = 2) \<and> list_all isDigit H"
    "case G of None \<Rightarrow> True | Some d \<Rightarrow> length d = 2 \<and> list_all isDigit d"
    "list_all isWhiteSpace W" "p = ''am'' \<or> p = ''pm''"
    by blast
  from h(2) obtain u v where uv: "H = u @ v" "u \<in> words digit" "v \<in> words (opt digit)"
    using one_or_two[of H] by blast
  have p: "p \<in> words ?P" using h(5) period_words by blast
  have w: "W \<in> words ?S" using h(4) space_words by blast
  have m: "optMinute G \<in> words ?M" using h(3) minute_words by blast
  from w p have "W @ p \<in> words (Then ?S ?P)" unfolding Then_words[of "W @ p"] by blast
  with m have "optMinute G @ W @ p \<in> words (Then ?M (Then ?S ?P))"
    unfolding Then_words[of "optMinute G @ W @ p"] by blast
  with uv(3) have "v @ optMinute G @ W @ p \<in> words (Then (opt digit) (Then ?M (Then ?S ?P)))"
    unfolding Then_words[of "v @ optMinute G @ W @ p"] by blast
  with uv(2) have "u @ v @ optMinute G @ W @ p \<in> words ampmRegex"
    unfolding ampmRegex_def Then_words[of "u @ v @ optMinute G @ W @ p"] by blast
  then show ?L using h(1) uv(1) by simp
qed

lemma match_ampm_test: "(match_ampm s \<noteq> None) = test ampmRegex s"
proof -
  have "match_ampm s \<noteq> None \<longleftrightarrow> (\<exists>H G p. match_ampm s = Some (H, G, p))" by auto
  then show ?thesis
    unfolding match_ampm_Some test_words ampm_words by blast
qed

section \<open>Bookings: the email grammar and the referenced event\<close>

lemma plain_list_all: "plain w \<longleftrightarrow> list_all (\<lambda>c. \<not> (isWhiteSpace c \<or> c = CHR ''@'')) w"
  by (auto simp: plain_def list_all_iff)

lemma emailRegex_words:
  "s \<in> words emailRegex \<longleftrightarrow>
     (\<exists>l a b. s = l @ ''@'' @ a @ ''.'' @ b \<and> l \<noteq> [] \<and> a \<noteq> [] \<and> b \<noteq> []
        \<and> plain l \<and> plain a \<and> plain b)"
  unfolding emailRegex_def Let_def words.simps(5) some_Class lit_words plain_list_all
  by (simp only: mem_Collect_eq) blast

lemma dot_plain: "plain ''.''"
  by (simp add: plain_def isWhiteSpace_def)

lemma plain_append: "plain (u @ v) \<longleftrightarrow> plain u \<and> plain v"
  by (auto simp: plain_def)

lemma isValidEmail_iff: "isValidEmail s \<longleftrightarrow> emailGrammar s"
proof -
  have "emailGrammar s \<longleftrightarrow>
     (\<exists>l a b. s = l @ ''@'' @ a @ ''.'' @ b \<and> l \<noteq> [] \<and> a \<noteq> [] \<and> b \<noteq> []
        \<and> plain l \<and> plain a \<and> plain b)"
    (is "_ \<longleftrightarrow> ?R")
  proof
    assume "emailGrammar s"
    then obtain l d a b where "s = l @ ''@'' @ d" "l \<noteq> []" "plain l" "plain d"
      "d = a @ ''.'' @ b" "a \<noteq> []" "b \<noteq> []"
      unfolding emailGrammar_def by blast
    then have "s = l @ ''@'' @ a @ ''.'' @ b \<and> l \<noteq> [] \<and> a \<noteq> [] \<and> b \<noteq> []
        \<and> plain l \<and> plain a \<and> plain b"
      by (simp add: plain_append plain_def)
    then show ?R by blast
  next
    assume ?R
    then obtain l a b where h: "s = l @ ''@'' @ a @ ''.'' @ b" "l \<noteq> []" "a \<noteq> []" "b \<noteq> []"
      "plain l" "plain a" "plain b"
      by blast
    then have "plain (a @ ''.'' @ b)"
      using dot_plain plain_append[of a "''.'' @ b"] plain_append[of "''.''" b] by simp
    with h show "emailGrammar s"
      unfolding emailGrammar_def by blast
  qed
  then show ?thesis
    by (simp add: isValidEmail_def test_words emailRegex_words)
qed

text \<open>
  Claim C5. \<open>isValidEmail\<close> accepts a string exactly when it has the form
  \<open>localpart@domain\<close> with a non-empty local part, no white space and no \<open>@\<close> in either
  part, and a dot in the domain with at least one character before and after it. The
  hook fails with \<open>ValidationError ''email''\<close> exactly when the email field is not such a
  string, and then the save fails with that error and writes nothing. \<open>a@b.com\<close> is
  accepted; \<open>a@b\<close>, \<open>a b@c.com\<close> and \<open>@c.com\<close> are rejected.
\<close>

theorem isValidEmail_grammar:
  "(isValidEmail s \<longleftrightarrow> emailGrammar s)
   \<and> (preSaveBooking db b = Some (ValidationError ''email'')
        \<longleftrightarrow> (\<forall>e. email b = JString e \<longrightarrow> \<not> emailGrammar e))
   \<and> ((\<forall>e. email b = JString e \<longrightarrow> \<not> emailGrammar e)
        \<longrightarrow> saveBooking db b = (Some (ValidationError ''email''), db))
   \<and> isValidEmail ''a@b.com'' \<and> \<not> isValidEmail ''a@b''
   \<and> \<not> isValidEmail ''a b@c.com'' \<and> \<not> isValidEmail ''@c.com''"
proof (intro conjI)
  show "isValidEmail s \<longleftrightarrow> emailGrammar s" by (rule isValidEmail_iff)
  show "preSaveBooking db b = Some (ValidationError ''email'')
        \<longleftrightarrow> (\<forall>e. email b = JString e \<longrightarrow> \<not> emailGrammar e)"
    by (cases "email b") (auto simp: preSaveBooking_def isValidEmail_iff)
  show "(\<forall>e. email b = JString e \<longrightarrow> \<not> emailGrammar e)
        \<longrightarrow> saveBooking db b = (Some (ValidationError ''email''), db)"
    by (cases "email b") (auto simp: saveBooking_def preSaveBooking_def isValidEmail_iff)
  show "isValidEmail ''a@b.com''" by code_simp
  show "\<not> isValidEmail ''a@b''" by code_simp
  show "\<not> isValidEmail ''a b@c.com''" by code_simp
  show "\<not> isValidEmail ''@c.com''" by code_simp
qed

lemma emailGrammar_example: "emailGrammar ''dev@events.io''"
  unfolding emailGrammar_def
  apply (rule exI[of _ "''dev''"])
  apply (rule exI[of _ "''events.io''"])
  apply (simp add: plain_def isWhiteSpace_def)
  apply (rule exI[of _ "''events''"])
  apply simp
  done

text \<open>The theorem at an address of the grammar, and at an email field that is \<open>null\<close>.\<close>

theorem isValidEmail_grammar_witness:
  "isValidEmail ''dev@events.io''
   \<and> preSaveBooking \<lparr>events = Map.empty, bookings = []\<rparr> \<lparr>eventId = 1, email = JNull\<rparr>
       = Some (ValidationError ''email'')"
  using isValidEmail_grammar[of "''dev@events.io''" "\<lparr>events = Map.empty, bookings = []\<rparr>"
      "\<lparr>eventId = 1, email = JNull\<rparr>"] emailGrammar_example
  by simp

text \<open>
  Claim C6, as the code has it. Saving a booking whose email is valid and whose
  referenced event does not exist fails with \<open>ReferenceError ''eventId''\<close>. Whenever the
  referenced event does not exist the save fails and the store is unchanged (with an
  invalid email the error is the one of the email test, which comes first). Where the
  event exists and the email is valid the hook succeeds, and the booking is written.
\<close>

theorem saveBooking_missing_event:
  "(\<not> Event_exists db (eventId b) \<and> email b = JString e \<and> emailGrammar e
      \<longrightarrow> saveBooking db b = (Some (ReferenceError ''eventId''), db))
   \<and> (\<not> Event_exists db (eventId b) \<longrightarrow> (\<exists>err. saveBooking db b = (Some err, db)))
   \<and> (Event_exists db (eventId b) \<and> email b = JString e \<and> emailGrammar e
      \<longrightarrow> preSaveBooking db b = None
          \<and> saveBooking db b = (None, db\<lparr>bookings := bookings db @ [b]\<rparr>))"
  by (auto simp: saveBooking_def preSaveBooking_def isValidEmail_iff)

text \<open>
  The theorem at a valid booking, saved to a store without events and validated against
  a store that has the event.
\<close>

theorem saveBooking_missing_event_witness:
  "saveBooking \<lparr>events = Map.empty, bookings = []\<rparr> \<lparr>eventId = 1, email = JString ''dev@events.io''\<rparr>
     = (Some (ReferenceError ''eventId''), \<lparr>events = Map.empty, bookings = []\<rparr>)
   \<and> preSaveBooking \<lparr>events = [1 \<mapsto> sampleEvent], bookings = []\<rparr>
        \<lparr>eventId = 1, email = JString ''dev@events.io''\<rparr> = None"
  using saveBooking_missing_event[of "\<lparr>events = Map.empty, bookings = []\<rparr>"
      "\<lparr>eventId = 1, email = JString ''dev@events.io''\<rparr>" "''dev@events.io''"]
    saveBooking_missing_event[of "\<lparr>events = [1 \<mapsto> sampleEvent], bookings = []\<rparr>"
      "\<lparr>eventId = 1, email = JString ''dev@events.io''\<rparr>" "''dev@events.io''"]
    emailGrammar_example
  by (simp add: Event_exists_def)

text \<open>
  Against C6 as written: a booking with the invalid email \<open>a@b\<close> whose event does not
  exist fails with \<open>ValidationError ''email''\<close>, not with \<open>ReferenceError ''eventId''\<close>.
\<close>

theorem saveBooking_invalid_email_first:
  "saveBooking \<lparr>events = Map.empty, bookings = []\<rparr> \<lparr>eventId = 1, email = JString ''a@b''\<rparr>
     = (Some (ValidationError ''email''), \<lparr>events = Map.empty, bookings = []\<rparr>)"
proof -
  have "\<not> isValidEmail ''a@b''" by code_simp
  then show ?thesis by (simp add: saveBooking_def preSaveBooking_def)
qed

section \<open>The connection cache: one connect operation for all callers\<close>

lemma call_not_configured: "\<not> configured env \<Longrightarrow> call env w = (Threw ConfigError, w)"
  by (cases env) (auto simp: call_def configured_def)

lemma call_configured:
  "configured env \<Longrightarrow> call env w =
     (case conn w of
        Some h \<Rightarrow> (Returned h, w)
      | None \<Rightarrow>
          (case promise w of
             Some p \<Rightarrow> (AwaitCached p, w)
           | None \<Rightarrow>
               (AwaitOwn (length (attempts w)),
                w\<lparr>attempts := attempts w @ [(trim (the env), Pending)],
                  promise := Some (length (attempts w))\<rparr>)))"
  by (auto simp: call_def configured_def Let_def split: option.splits)

lemma single_start: "single start"
  by (simp add: single_def start_def)

lemma single_call: "single (w, ts) \<Longrightarrow> single (step (Call env) (w, ts))"
proof (cases "configured env")
  case False
  assume "single (w, ts)"
  then show ?thesis
    using False by (auto simp: single_def call_not_configured taskOk_def)
next
  case True
  assume s: "single (w, ts)"
  show ?thesis
  proof (cases "promise w")
    case None
    with s have "conn w = None" "attempts w = []" "\<forall>t\<in>set ts. t = Threw ConfigError"
      by (auto simp: single_def)
    with None True show ?thesis
      by (auto simp: single_def call_configured taskOk_def stateOf_def)
  next
    case (Some p)
    with s have p: "p = 0" and r: "length (attempts w) = 1" "\<forall>e. stateOf w 0 \<noteq> Rejected e"
      "\<forall>h. conn w = Some h \<longrightarrow> stateOf w 0 = Fulfilled h" "\<forall>t\<in>set ts. taskOk w t"
      by (auto simp: single_def)
    show ?thesis
    proof (cases "conn w")
      case None
      with Some True p r show ?thesis
        by (auto simp: single_def call_configured taskOk_def)
    next
      case (Some h)
      with \<open>promise w = Some p\<close> True p r show ?thesis
        by (auto simp: single_def call_configured taskOk_def)
    qed
  qed
qed

lemma stateOf_settle:
  "stateOf (settle p r w) q =
     (if q = p \<and> p < length (attempts w) \<and> stateOf w p = Pending then r else stateOf w q)"
  by (auto simp: stateOf_def settle_def)

lemma settle_fields:
  "conn (settle p r w) = conn w" "promise (settle p r w) = promise w"
  "length (attempts (settle p r w)) = length (attempts w)"
  by (simp_all add: settle_def)

lemma single_settle:
  assumes "single (w, ts)" and "\<forall>e. r \<noteq> Rejected e"
  shows "single (step (Settle p r) (w, ts))"
proof -
  have keep: "stateOf w 0 = Fulfilled h \<Longrightarrow> stateOf (settle p r w) 0 = Fulfilled h" for h
    by (auto simp: stateOf_settle)
  have norej: "\<forall>e. stateOf w 0 \<noteq> Rejected e \<Longrightarrow> \<forall>e. stateOf (settle p r w) 0 \<noteq> Rejected e"
    using assms(2) by (auto simp: stateOf_settle)
  have ok: "taskOk w t \<Longrightarrow> taskOk (settle p r w) t" for t
    using keep by (auto simp: taskOk_def)
  from assms(1) show ?thesis
    unfolding single_def step.simps prod.case settle_fields
    using keep norej ok by (auto simp: settle_def)
qed

lemma resume_cases:
  "resume t w =
     (if t = AwaitOwn 0 \<or> t = AwaitCached 0 then
        (case stateOf w 0 of
           Pending \<Rightarrow> (t, w)
         | Fulfilled h \<Rightarrow> (Returned h, w\<lparr>conn := Some h\<rparr>)
         | Rejected e \<Rightarrow> (Threw (ConnectError e), if t = AwaitOwn 0 then w\<lparr>promise := None\<rparr> else w))
      else resume t w)"
  by (auto simp: resume_def split: settled.splits)

lemma single_resume:
  assumes "single (w, ts)"
  shows "single (step (Resume i) (w, ts))"
proof (cases "i < length ts")
  case False
  with assms show ?thesis by simp
next
  case True
  then have mem: "ts ! i \<in> set ts" by simp
  from assms consider
      (empty) "promise w = None" "conn w = None" "attempts w = []" "\<forall>t\<in>set ts. t = Threw ConfigError"
    | (flight) "promise w = Some 0" "length (attempts w) = 1" "\<forall>e. stateOf w 0 \<noteq> Rejected e"
        "\<forall>h. conn w = Some h \<longrightarrow> stateOf w 0 = Fulfilled h" "\<forall>t\<in>set ts. taskOk w t"
    by (auto simp: single_def)
  then show ?thesis
  proof cases
    case empty
    with mem have "ts ! i = Threw ConfigError" by blast
    then have "resume (ts ! i) w = (ts ! i, w)" by (simp add: resume_def)
    with True assms show ?thesis by (simp add: list_update_id)
  next
    case flight
    from flight(5) mem have ok: "taskOk w (ts ! i)" by blast
    show ?thesis
    proof (cases "stateOf w 0")
      case Pending
      with ok have "resume (ts ! i) w = (ts ! i, w)"
        by (auto simp: resume_def taskOk_def)
      with True assms show ?thesis by (simp add: list_update_id)
    next
      case (Rejected e)
      with flight(3) show ?thesis by simp
    next
      case (Fulfilled h)
      define w' where "w' = w\<lparr>conn := Some h\<rparr>"
      have st: "stateOf w' q = stateOf w q" for q by (simp add: stateOf_def w'_def)
      have ok': "taskOk w' t = taskOk w t" for t by (simp add: taskOk_def st)
      from ok Fulfilled have "resume (ts ! i) w = (Returned h, w') \<or> resume (ts ! i) w = (ts ! i, w)"
        by (auto simp: resume_def taskOk_def w'_def)
      then show ?thesis
      proof
        assume "resume (ts ! i) w = (ts ! i, w)"
        with True assms show ?thesis by (simp add: list_update_id)
      next
        assume r: "resume (ts ! i) w = (Returned h, w')"
        have "taskOk w' (Returned h)" using Fulfilled by (simp add: taskOk_def st)
        moreover have "\<forall>t\<in>set ts. taskOk w' t" using flight(5) by (simp add: ok')
        ultimately have "\<forall>t\<in>set (ts[i := Returned h]). taskOk w' t"
          using set_update_subset_insert[of ts i "Returned h"] by auto
        moreover have "promise w' = Some 0" "length (attempts w') = 1" "conn w' = Some h"
          using flight by (simp_all add: w'_def)
        ultimately show ?thesis
          using True r Fulfilled flight(3) by (simp add: single_def st)
      qed
    qed
  qed
qed

lemma single_step:
  assumes "single s" and "\<forall>p e. a \<noteq> Settle p (Rejected e)"
  shows "single (step a s)"
proof -
  obtain w ts where s: "s = (w, ts)" by (cases s)
  show ?thesis
  proof (cases a)
    case (Call env)
    with assms s show ?thesis using single_call by simp
  next
    case (Settle p r)
    with assms(2) have "\<forall>e. r \<noteq> Rejected e" by simp
    with assms(1) s Settle show ?thesis using single_settle by simp
  next
    case (Resume i)
    with assms s show ?thesis using single_resume by simp
  qed
qed

lemma single_run:
  "single s \<Longrightarrow> \<forall>p e. Settle p (Rejected e) \<notin> set acts \<Longrightarrow> single (run acts s)"
proof (induction acts arbitrary: s)
  case Nil
  then show ?case by (simp add: run_def)
next
  case (Cons a acts)
  from Cons.prems have "single (step a s)" by (intro single_step) auto
  moreover from Cons.prems have "\<forall>p e. Settle p (Rejected e) \<notin> set acts" by auto
  ultimately have "single (run acts (step a s))" by (rule Cons.IH)
  then show ?case by (simp add: run_def)
qed

lemma run_append: "run (a @ b) s = run b (run a s)"
  by (simp add: run_def)

lemma run_Cons: "run (a # b) s = run b (step a s)"
  by (simp add: run_def)

lemma run_Nil: "run [] s = s"
  by (simp add: run_def)

lemma run_calls_in_flight:
  "configured env \<Longrightarrow> conn w = None \<Longrightarrow> promise w = Some p \<Longrightarrow>
     run (replicate n (Call env)) (w, ts) = (w, ts @ replicate n (AwaitCached p))"
proof (induction n arbitrary: ts)
  case 0
  then show ?case by (simp add: run_Nil)
next
  case (Suc n)
  have "step (Call env) (w, ts) = (w, ts @ [AwaitCached p])"
    using Suc.prems by (simp add: call_configured)
  then have "run (replicate (Suc n) (Call env)) (w, ts)
      = run (replicate n (Call env)) (w, ts @ [AwaitCached p])"
    by (simp add: run_Cons)
  also have "\<dots> = (w, (ts @ [AwaitCached p]) @ replicate n (AwaitCached p))"
    using Suc.prems by (intro Suc.IH)
  finally show ?case by (simp add: replicate_app_Cons_same)
qed

lemma run_resumes:
  assumes "stateOf w 0 = Fulfilled h" and "\<forall>t\<in>set ts. t = AwaitOwn 0 \<or> t = AwaitCached 0"
    and "k \<le> length ts"
  shows "run (map Resume [0..<k]) (w, ts)
     = (if k = 0 then w else w\<lparr>conn := Some h\<rparr>, replicate k (Returned h) @ drop k ts)"
  using assms(3)
proof (induction k)
  case 0
  then show ?case by (simp add: run_Nil)
next
  case (Suc k)
  define w' where "w' = (if k = 0 then w else w\<lparr>conn := Some h\<rparr>)"
  define ts' where "ts' = replicate k (Returned h) @ drop k ts"
  from Suc have ih: "run (map Resume [0..<k]) (w, ts) = (w', ts')"
    by (simp add: w'_def ts'_def)
  have k: "k < length ts'" "ts' ! k = ts ! k" using Suc.prems by (simp_all add: ts'_def nth_append)
  have "ts ! k \<in> set ts" using Suc.prems by simp
  with assms(2) have aw: "ts ! k = AwaitOwn 0 \<or> ts ! k = AwaitCached 0" by blast
  have st: "stateOf w' 0 = Fulfilled h"
    using assms(1) by (auto simp: w'_def stateOf_def split: if_splits)
  have "resume (ts' ! k) w' = (Returned h, w'\<lparr>conn := Some h\<rparr>)"
    using aw st k(2) by (auto simp: resume_def)
  then have "step (Resume k) (w', ts') = (w'\<lparr>conn := Some h\<rparr>, ts'[k := Returned h])"
    using k(1) by simp
  moreover have "w'\<lparr>conn := Some h\<rparr> = w\<lparr>conn := Some h\<rparr>" by (simp add: w'_def)
  moreover have "ts'[k := Returned h] = replicate (Suc k) (Returned h) @ drop (Suc k) ts"
    using Suc.prems
    by (simp add: ts'_def list_update_append replicate_append_same Cons_nth_drop_Suc[symmetric])
  ultimately have "step (Resume k) (w', ts')
      = (w\<lparr>conn := Some h\<rparr>, replicate (Suc k) (Returned h) @ drop (Suc k) ts)"
    by simp
  then show ?case
    using ih by (simp add: run_append run_Cons run_Nil)
qed

lemma run_simultaneous:
  assumes "configured env"
  shows "run (replicate (Suc n) (Call env) @ [Settle 0 (Fulfilled h)] @ map Resume [0..<Suc n]) start
     = (\<lparr>conn = Some h, promise = Some 0, attempts = [(trim (the env), Fulfilled h)]\<rparr>,
        replicate (Suc n) (Returned h))"
proof -
  define w1 where "w1 = \<lparr>conn = None, promise = Some 0, attempts = [(trim (the env), Pending)]\<rparr>"
  define w2 where "w2 = \<lparr>conn = None, promise = Some 0, attempts = [(trim (the env), Fulfilled h)]\<rparr>"
  define ts where "ts = AwaitOwn 0 # replicate n (AwaitCached 0)"
  have "step (Call env) start = (w1, [AwaitOwn 0])"
    using assms by (simp add: start_def call_configured w1_def)
  then have "run (replicate (Suc n) (Call env)) start = run (replicate n (Call env)) (w1, [AwaitOwn 0])"
    by (simp add: run_Cons)
  also have "\<dots> = (w1, ts)"
    unfolding ts_def using run_calls_in_flight[OF assms, of w1 0 n "[AwaitOwn 0]"]
    by (simp add: w1_def)
  finally have calls: "run (replicate (Suc n) (Call env)) start = (w1, ts)" .
  have settle: "step (Settle 0 (Fulfilled h)) (w1, ts) = (w2, ts)"
    by (simp add: settle_def w1_def w2_def)
  have "run (map Resume [0..<Suc n]) (w2, ts)
      = (if Suc n = 0 then w2 else w2\<lparr>conn := Some h\<rparr>, replicate (Suc n) (Returned h) @ drop (Suc n) ts)"
    by (rule run_resumes) (auto simp: w2_def stateOf_def ts_def)
  then have resumes: "run (map Resume [0..<Suc n]) (w2, ts)
      = (w2\<lparr>conn := Some h\<rparr>, replicate (Suc n) (Returned h))"
    by (simp add: ts_def)
  have "run (replicate (Suc n) (Call env) @ [Settle 0 (Fulfilled h)] @ map Resume [0..<Suc n]) start
      = run (map Resume [0..<Suc n]) (run [Settle 0 (Fulfilled h)] (run (replicate (Suc n) (Call env)) start))"
    by (simp only: run_append)
  also have "\<dots> = run (map Resume [0..<Suc n]) (w2, ts)"
    by (simp only: calls run_Cons run_Nil settle)
  also have "\<dots> = (w2\<lparr>conn := Some h\<rparr>, replicate (Suc n) (Returned h))"
    by (rule resumes)
  finally show ?thesis by (simp add: w2_def)
qed

text \<open>
  Claim C9. Start from the empty cache and take any schedule of calls, settlements and
  resumptions in which no connect operation is rejected. Then at most one connect
  operation has been started, exactly one as soon as some invocation got past the URI
  check, and every invocation that got past it either still awaits that one operation
  or has returned the handle it was fulfilled with (so all returned handles are the
  same). In particular, \<open>N\<close> callers that all call before the operation settles, and
  are resumed after it settled with handle \<open>h\<close>, leave one operation in \<open>attempts\<close> and
  all return \<open>h\<close>. The reason is in the last two parts: a call on the empty cache stores
  the new promise in the cache in the same step in which it starts the operation, and a
  call that finds a promise in the cache awaits that promise and starts nothing.
\<close>

theorem connect_once:
  "((\<forall>p e. Settle p (Rejected e) \<notin> set acts) \<longrightarrow>
      (case run acts start of (w, ts) \<Rightarrow>
         length (attempts w) \<le> 1
         \<and> ((\<exists>t\<in>set ts. t \<noteq> Threw ConfigError) \<longrightarrow> length (attempts w) = 1)
         \<and> (\<forall>t\<in>set ts. t = Threw ConfigError \<or> t = AwaitOwn 0 \<or> t = AwaitCached 0
               \<or> (\<exists>h. t = Returned h \<and> stateOf w 0 = Fulfilled h))))
   \<and> (configured env \<longrightarrow>
        run (replicate (Suc n) (Call env) @ [Settle 0 (Fulfilled h)] @ map Resume [0..<Suc n]) start
          = (\<lparr>conn = Some h, promise = Some 0, attempts = [(trim (the env), Fulfilled h)]\<rparr>,
             replicate (Suc n) (Returned h)))
   \<and> (configured env \<and> conn w = None \<and> promise w = None \<longrightarrow>
        call env w = (AwaitOwn (length (attempts w)),
                      w\<lparr>attempts := attempts w @ [(trim (the env), Pending)],
                        promise := Some (length (attempts w))\<rparr>))
   \<and> (configured env \<and> conn w = None \<and> promise w = Some p \<longrightarrow> call env w = (AwaitCached p, w))"
proof (intro conjI impI)
  assume a: "\<forall>p e. Settle p (Rejected e) \<notin> set acts"
  obtain w' ts where r: "run acts start = (w', ts)" by (cases "run acts start")
  from single_run[OF single_start a] have "single (w', ts)" by (simp add: r)
  then have "length (attempts w') \<le> 1
         \<and> ((\<exists>t\<in>set ts. t \<noteq> Threw ConfigError) \<longrightarrow> length (attempts w') = 1)
         \<and> (\<forall>t\<in>set ts. t = Threw ConfigError \<or> t = AwaitOwn 0 \<or> t = AwaitCached 0
               \<or> (\<exists>h. t = Returned h \<and> stateOf w' 0 = Fulfilled h))"
    unfolding single_def taskOk_def by auto
  then show "case run acts start of (w, ts) \<Rightarrow>
         length (attempts w) \<le> 1
         \<and> ((\<exists>t\<in>set ts. t \<noteq> Threw ConfigError) \<longrightarrow> length (attempts w) = 1)
         \<and> (\<forall>t\<in>set ts. t = Threw ConfigError \<or> t = AwaitOwn 0 \<or> t = AwaitCached 0
               \<or> (\<exists>h. t = Returned h \<and> stateOf w 0 = Fulfilled h))"
    by (simp add: r)
next
  assume "configured env"
  then show "run (replicate (Suc n) (Call env) @ [Settle 0 (Fulfilled h)] @ map Resume [0..<Suc n]) start
          = (\<lparr>conn = Some h, promise = Some 0, attempts = [(trim (the env), Fulfilled h)]\<rparr>,
             replicate (Suc n) (Returned h))"
    by (rule run_simultaneous)
next
  assume "configured env \<and> conn w = None \<and> promise w = None"
  then show "call env w = (AwaitOwn (length (attempts w)),
                      w\<lparr>attempts := attempts w @ [(trim (the env), Pending)],
                        promise := Some (length (attempts w))\<rparr>)"
    by (simp add: call_configured)
next
  assume "configured env \<and> conn w = None \<and> promise w = Some p"
  then show "call env w = (AwaitCached p, w)"
    by (simp add: call_configured)
qed

lemma configured_example: "configured (Some '' mongodb://db:27017/events '')"
proof -
  have "trim '' mongodb://db:27017/events '' = ''mongodb://db:27017/events''" by code_simp
  then show ?thesis by (simp add: configured_def)
qed

text \<open>
  The theorem at a schedule in which calls, a settlement and resumptions interleave,
  and at three simultaneous callers.
\<close>

theorem connect_once_witness:
  "(case run [Call (Some '' mongodb://db:27017/events ''), Call None,
              Call (Some '' mongodb://db:27017/events ''), Settle 0 (Fulfilled 7), Resume 2,
              Call (Some '' mongodb://db:27017/events ''), Resume 0] start of
      (w, ts) \<Rightarrow> length (attempts w) = 1 \<and> ts = [Returned 7, Threw ConfigError, Returned 7, Returned 7])
   \<and> run (replicate 3 (Call (Some '' mongodb://db:27017/events '')) @ [Settle 0 (Fulfilled 7)]
           @ map Resume [0..<3]) start
       = (\<lparr>conn = Some 7, promise = Some 0, attempts = [(''mongodb://db:27017/events'', Fulfilled 7)]\<rparr>,
          [Returned 7, Returned 7, Returned 7])"
proof
  let ?env = "Some '' mongodb://db:27017/events ''"
  let ?acts = "[Call ?env, Call None, Call ?env, Settle 0 (Fulfilled 7), Resume 2, Call ?env, Resume 0]"
  obtain w ts where run: "run ?acts start = (w, ts)" by (cases "run ?acts start")
  have "snd (run ?acts start) = [Returned 7, Threw ConfigError, Returned 7, Returned 7]"
    by code_simp
  then have ts: "ts = [Returned 7, Threw ConfigError, Returned 7, Returned 7]"
    by (simp add: run)
  have "\<forall>p e. Settle p (Rejected e) \<notin> set ?acts" by simp
  with connect_once[of ?acts ?env 2 7, THEN conjunct1]
  have "case run ?acts start of (w, ts) \<Rightarrow>
         length (attempts w) \<le> 1
         \<and> ((\<exists>t\<in>set ts. t \<noteq> Threw ConfigError) \<longrightarrow> length (attempts w) = 1)
         \<and> (\<forall>t\<in>set ts. t = Threw ConfigError \<or> t = AwaitOwn 0 \<or> t = AwaitCached 0
               \<or> (\<exists>h. t = Returned h \<and> stateOf w 0 = Fulfilled h))"
    by (rule mp)
  then have "(\<exists>t\<in>set ts. t \<noteq> Threw ConfigError) \<longrightarrow> length (attempts w) = 1"
    by (simp add: run)
  moreover have "\<exists>t\<in>set ts. t \<noteq> Threw ConfigError" by (simp add: ts)
  ultimately have "length (attempts w) = 1" by (rule mp)
  with ts show "case run ?acts start of
      (w, ts) \<Rightarrow> length (attempts w) = 1 \<and> ts = [Returned 7, Threw ConfigError, Returned 7, Returned 7]"
    by (simp add: run)
next
  let ?env = "Some '' mongodb://db:27017/events ''"
  have t: "trim '' mongodb://db:27017/events '' = ''mongodb://db:27017/events''" by code_simp
  have three: "(3::nat) = Suc 2" by simp
  from connect_once[where env = ?env and n = 2 and h = 7, THEN conjunct2, THEN conjunct1]
    configured_example
  have "run (replicate (Suc 2) (Call ?env) @ [Settle 0 (Fulfilled 7)] @ map Resume [0..<Suc 2]) start
       = (\<lparr>conn = Some 7, promise = Some 0, attempts = [(trim (the ?env), Fulfilled 7)]\<rparr>,
          replicate (Suc 2) (Returned 7))"
    by (rule mp)
  then show "run (replicate 3 (Call ?env) @ [Settle 0 (Fulfilled 7)] @ map Resume [0..<3]) start
       = (\<lparr>conn = Some 7, promise = Some 0, attempts = [(''mongodb://db:27017/events'', Fulfilled 7)]\<rparr>,
          [Returned 7, Returned 7, Returned 7])"
    unfolding three by (simp only: t option.sel replicate.simps numeral_2_eq_2)
qed

section \<open>The connection cache: configuration and failure\<close>

text \<open>
  Claim C2, as the code has it. With a connection URI configured, a call on a cache that
  holds a live handle returns that handle at once and leaves the world as it is: no
  connect operation is started and nothing is awaited. Without a configured URI the
  call fails with \<open>ConfigError\<close>, before any I/O and whatever the cache holds; and
  \<open>ConfigError\<close> is raised only then.
\<close>

theorem call_with_live_handle:
  "(configured env \<and> conn w = Some h \<longrightarrow> call env w = (Returned h, w))
   \<and> (\<not> configured env \<longrightarrow> call env w = (Threw ConfigError, w))
   \<and> (fst (call env w) = Threw ConfigError \<longrightarrow> \<not> configured env)"
proof (intro conjI impI)
  assume "configured env \<and> conn w = Some h"
  then show "call env w = (Returned h, w)" by (simp add: call_configured)
next
  assume "\<not> configured env"
  then show "call env w = (Threw ConfigError, w)" by (rule call_not_configured)
next
  assume a: "fst (call env w) = Threw ConfigError"
  show "\<not> configured env"
  proof
    assume "configured env"
    with a show False by (auto simp: call_configured split: option.splits)
  qed
qed

text \<open>The theorem at a cache with a live handle, and at a blank URI.\<close>

theorem call_with_live_handle_witness:
  "call (Some '' mongodb://db:27017/events '')
      \<lparr>conn = Some 7, promise = Some 0, attempts = [(''mongodb://db:27017/events'', Fulfilled 7)]\<rparr>
     = (Returned 7,
        \<lparr>conn = Some 7, promise = Some 0, attempts = [(''mongodb://db:27017/events'', Fulfilled 7)]\<rparr>)
   \<and> call (Some ''  '') \<lparr>conn = None, promise = None, attempts = []\<rparr>
     = (Threw ConfigError, \<lparr>conn = None, promise = None, attempts = []\<rparr>)"
proof
  let ?w = "\<lparr>conn = Some 7, promise = Some 0, attempts = [(''mongodb://db:27017/events'', Fulfilled 7)]\<rparr>"
  have "configured (Some '' mongodb://db:27017/events '') \<and> conn ?w = Some 7"
    using configured_example by simp
  with call_with_live_handle[of "Some '' mongodb://db:27017/events ''" ?w 7, THEN conjunct1]
  show "call (Some '' mongodb://db:27017/events '') ?w = (Returned 7, ?w)" by (rule mp)
next
  have "trim ''  '' = []" by code_simp
  then have "\<not> configured (Some ''  '')" by (simp add: configured_def)
  with call_with_live_handle[of "Some ''  ''" "\<lparr>conn = None, promise = None, attempts = []\<rparr>" 0,
      THEN conjunct2, THEN conjunct1]
  show "call (Some ''  '') \<lparr>conn = None, promise = None, attempts = []\<rparr>
     = (Threw ConfigError, \<lparr>conn = None, promise = None, attempts = []\<rparr>)" by (rule mp)
qed

text \<open>
  Against C2 as written: the cache holds the live handle 7 and the variable is not set;
  the call fails with \<open>ConfigError\<close> although the handle could be returned.
\<close>

theorem call_live_handle_no_uri:
  "call None \<lparr>conn = Some 7, promise = Some 0, attempts = [(''mongodb://db:27017/events'', Fulfilled 7)]\<rparr>
     = (Threw ConfigError,
        \<lparr>conn = Some 7, promise = Some 0, attempts = [(''mongodb://db:27017/events'', Fulfilled 7)]\<rparr>)"
  by (simp add: call_def)

lemma trim_blank: "list_all isWhiteSpace u \<Longrightarrow> trim u = []"
proof -
  assume "list_all isWhiteSpace u"
  then have d: "dropWhile isWhiteSpace u = []" by (simp add: dropWhile_eq_Nil_conv list_all_iff)
  show ?thesis unfolding trim_def d by simp
qed

text \<open>
  Claim C10. A connection URI that is set but empty after trimming, so in particular
  one that consists of white space only, fails with \<open>ConfigError\<close> exactly as an absent
  one does, and leaves the world as it is.
\<close>

theorem call_blank_uri:
  "call None w = (Threw ConfigError, w)
   \<and> (trim u = [] \<longrightarrow> call (Some u) w = (Threw ConfigError, w))
   \<and> (list_all isWhiteSpace u \<longrightarrow> trim u = [] \<and> call (Some u) w = call None w)"
  by (auto simp: call_def trim_blank)

text \<open>The theorem at a URI made of a space, a tab and a line feed.\<close>

theorem call_blank_uri_witness:
  "call (Some [CHR 0x20, CHR 0x09, CHR 0x0A]) \<lparr>conn = Some 7, promise = None, attempts = []\<rparr>
     = (Threw ConfigError, \<lparr>conn = Some 7, promise = None, attempts = []\<rparr>)"
proof -
  have "list_all isWhiteSpace [CHR 0x20, CHR 0x09, CHR 0x0A]" by (simp add: isWhiteSpace_def)
  then show ?thesis
    using call_blank_uri[of "\<lparr>conn = Some 7, promise = None, attempts = []\<rparr>" "[CHR 0x20, CHR 0x09, CHR 0x0A]"]
    by simp
qed

text \<open>
  Claim C8. When the awaited connect operation was rejected with \<open>e\<close>, the invocation
  that started it throws \<open>e\<close> to its caller and clears the cached promise, and changes
  nothing else: no handle is stored in \<open>conn\<close>. An invocation that awaited the cached
  promise throws \<open>e\<close> as well and changes nothing. On the cleared cache the next call
  (with a URI configured and no live handle) starts a fresh connect operation. From the
  empty cache: a call, the rejection, the resumption and a second call leave two
  operations started, the second one pending and cached.
\<close>

theorem failed_attempt:
  "(stateOf w p = Rejected e \<longrightarrow>
      resume (AwaitOwn p) w = (Threw (ConnectError e), w\<lparr>promise := None\<rparr>)
      \<and> resume (AwaitCached p) w = (Threw (ConnectError e), w))
   \<and> (configured env \<and> conn w = None \<longrightarrow>
        call env (w\<lparr>promise := None\<rparr>)
          = (AwaitOwn (length (attempts w)),
             w\<lparr>attempts := attempts w @ [(trim (the env), Pending)],
               promise := Some (length (attempts w))\<rparr>))
   \<and> (configured env \<longrightarrow>
        run [Call env, Settle 0 (Rejected e), Resume 0, Call env] start
          = (\<lparr>conn = None, promise = Some 1,
              attempts = [(trim (the env), Rejected e), (trim (the env), Pending)]\<rparr>,
             [Threw (ConnectError e), AwaitOwn 1]))"
proof (intro conjI impI)
  assume r: "stateOf w p = Rejected e"
  then show "resume (AwaitOwn p) w = (Threw (ConnectError e), w\<lparr>promise := None\<rparr>)"
    by (simp add: resume_def)
  from r show "resume (AwaitCached p) w = (Threw (ConnectError e), w)"
    by (simp add: resume_def)
next
  assume "configured env \<and> conn w = None"
  then show "call env (w\<lparr>promise := None\<rparr>)
          = (AwaitOwn (length (attempts w)),
             w\<lparr>attempts := attempts w @ [(trim (the env), Pending)],
               promise := Some (length (attempts w))\<rparr>)"
    by (simp add: call_configured)
next
  assume "configured env"
  then show "run [Call env, Settle 0 (Rejected e), Resume 0, Call env] start
          = (\<lparr>conn = None, promise = Some 1,
              attempts = [(trim (the env), Rejected e), (trim (the env), Pending)]\<rparr>,
             [Threw (ConnectError e), AwaitOwn 1])"
    by (simp add: run_def start_def call_configured settle_def resume_def stateOf_def)
qed

text \<open>The theorem at a refused connection.\<close>

theorem failed_attempt_witness:
  "run [Call (Some '' mongodb://db:27017/events ''), Settle 0 (Rejected ''ECONNREFUSED''), Resume 0,
        Call (Some '' mongodb://db:27017/events '')] start
     = (\<lparr>conn = None, promise = Some 1,
         attempts = [(''mongodb://db:27017/events'', Rejected ''ECONNREFUSED''),
                     (''mongodb://db:27017/events'', Pending)]\<rparr>,
        [Threw (ConnectError ''ECONNREFUSED''), AwaitOwn 1])
   \<and> resume (AwaitCached 0)
        \<lparr>conn = None, promise = None, attempts = [(''mongodb://db:27017/events'', Rejected ''ECONNREFUSED'')]\<rparr>
     = (Threw (ConnectError ''ECONNREFUSED''),
        \<lparr>conn = None, promise = None, attempts = [(''mongodb://db:27017/events'', Rejected ''ECONNREFUSED'')]\<rparr>)"
proof -
  have t: "trim '' mongodb://db:27017/events '' = ''mongodb://db:27017/events''" by code_simp
  let ?w = "\<lparr>conn = None, promise = None, attempts = [(''mongodb://db:27017/events'', Rejected ''ECONNREFUSED'')]\<rparr>"
  have s: "stateOf ?w 0 = Rejected ''ECONNREFUSED''" by (simp add: stateOf_def)
  show ?thesis
    using failed_attempt[of ?w 0 "''ECONNREFUSED''" "Some '' mongodb://db:27017/events ''"]
      configured_example s t
    by simp
qed

section \<open>Date normalization: the calendar\<close>

lemma div_succ:
  fixes a k :: int
  assumes "0 < k"
  shows "(a + 1) div k = a div k + (if (a + 1) mod k = 0 then 1 else 0)"
proof -
  define r where "r = a mod k + 1"
  have a: "a + 1 = r + k * (a div k)" by (simp add: r_def)
  have d: "(a + 1) div k = a div k + r div k"
    unfolding a using assms by simp
  have m: "(a + 1) mod k = r mod k"
    unfolding a by simp
  have r: "0 < r" "r \<le> k"
    using pos_mod_sign[OF assms, of a] pos_mod_bound[OF assms, of a] unfolding r_def by linarith+
  show ?thesis
  proof (cases "r = k")
    case True
    then show ?thesis using d m assms by simp
  next
    case False
    with r have "r < k" by simp
    then have "r div k = 0" "r mod k = r" using r by simp_all
    then show ?thesis using d m r by simp
  qed
qed

lemma mod_shift: "(y - k * c) mod k = y mod (k::int)"
  using mod_mult_self2[of "y - k * c" k c] by simp

lemma mod_400_100: "y mod 400 = 0 \<Longrightarrow> y mod 100 = (0::int)"
  using dvd_trans[of 100 400 y] by (simp add: mod_eq_0_iff_dvd)

lemma mod_100_4: "y mod 100 = 0 \<Longrightarrow> y mod 4 = (0::int)"
  using dvd_trans[of 4 100 y] by (simp add: mod_eq_0_iff_dvd)

lemma step4:
  "(y + 1 - 1969) div 4 = (y - 1969) div 4 + (if y mod 4 = 0 then 1 else (0::int))"
proof -
  have e: "y - 1969 + 1 = y - 4 * 492" "y + 1 - 1969 = y - 1969 + 1" by simp_all
  show ?thesis
    unfolding e(2) using div_succ[of 4 "y - 1969"] unfolding e(1) mod_shift by simp
qed

lemma step100:
  "(y + 1 - 1901) div 100 = (y - 1901) div 100 + (if y mod 100 = 0 then 1 else (0::int))"
proof -
  have e: "y - 1901 + 1 = y - 100 * 19" "y + 1 - 1901 = y - 1901 + 1" by simp_all
  show ?thesis
    unfolding e(2) using div_succ[of 100 "y - 1901"] unfolding e(1) mod_shift by simp
qed

lemma step400:
  "(y + 1 - 1601) div 400 = (y - 1601) div 400 + (if y mod 400 = 0 then 1 else (0::int))"
proof -
  have e: "y - 1601 + 1 = y - 400 * 4" "y + 1 - 1601 = y - 1601 + 1" by simp_all
  show ?thesis
    unfolding e(2) using div_succ[of 400 "y - 1601"] unfolding e(1) mod_shift by simp
qed

lemma DayFromYear_step: "DayFromYear (y + 1) = DayFromYear y + DaysInYear y"
proof -
  define A where "A = (y - 1969) div 4"
  define B where "B = (y - 1901) div 100"
  define C where "C = (y - 1601) div 400"
  define a :: int where "a = (if y mod 4 = 0 then 1 else 0)"
  define b :: int where "b = (if y mod 100 = 0 then 1 else 0)"
  define c :: int where "c = (if y mod 400 = 0 then 1 else 0)"
  have l: "DayFromYear (y + 1) = 365 * (y + 1 - 1970) + (A + a) - (B + b) + (C + c)"
    by (simp only: DayFromYear_def A_def B_def C_def a_def b_def c_def step4 step100 step400)
  have r: "DayFromYear y = 365 * (y - 1970) + A - B + C"
    by (simp only: DayFromYear_def A_def B_def C_def)
  have d: "DaysInYear y = 365 + a - b + c"
  proof (cases "y mod 4 = 0")
    case False
    with mod_400_100[of y] mod_100_4[of y] show ?thesis
      by (auto simp: DaysInYear_def isLeapYear_def a_def b_def c_def)
  next
    case True
    with mod_400_100[of y] show ?thesis
      by (auto simp: DaysInYear_def isLeapYear_def a_def b_def c_def)
  qed
  show ?thesis
    unfolding l r d by simp
qed

lemma DaysInYear_pos: "0 < DaysInYear y"
  by (simp add: DaysInYear_def)

lemma yearUp_bounds:
  "DayFromYear y \<le> d \<Longrightarrow> DayFromYear (yearUp d y) \<le> d \<and> d < DayFromYear (yearUp d y + 1)"
proof (induction d y rule: yearUp.induct)
  case (1 d y)
  show ?case
  proof (cases "DayFromYear (y + 1) \<le> d")
    case True
    with "1.IH" show ?thesis by (subst (1 2) yearUp.simps) simp
  next
    case False
    with "1.prems" show ?thesis by (subst (1 2) yearUp.simps) simp
  qed
qed

lemma DayFromYear_1970: "DayFromYear 1970 = 0"
  by (simp add: DayFromYear_def)

lemma DayFromYear_ge: "1970 \<le> y \<Longrightarrow> 365 * (y - 1970) \<le> DayFromYear y"
proof (induction y rule: int_ge_induct)
  case base
  then show ?case by (simp add: DayFromYear_1970)
next
  case (step i)
  have "365 \<le> DaysInYear i" by (simp add: DaysInYear_def)
  with step DayFromYear_step[of i] show ?case by simp
qed

lemma DayFromYear_le: "y \<le> 1970 \<Longrightarrow> DayFromYear y \<le> 365 * (y - 1970)"
proof (induction y rule: int_le_induct)
  case base
  then show ?case by (simp add: DayFromYear_1970)
next
  case (step i)
  have "365 \<le> DaysInYear (i - 1)" by (simp add: DaysInYear_def)
  with step DayFromYear_step[of "i - 1"] show ?case by simp
qed

lemma DayFromYear_le_366: "1970 \<le> y \<Longrightarrow> DayFromYear y \<le> 366 * (y - 1970)"
proof (induction y rule: int_ge_induct)
  case base
  then show ?case by (simp add: DayFromYear_1970)
next
  case (step i)
  have "DaysInYear i \<le> 366" by (simp add: DaysInYear_def)
  with step DayFromYear_step[of i] show ?case by simp
qed

lemma estimate_le: "DayFromYear (1970 + (if 0 \<le> d then d div 366 else d div 365)) \<le> d"
proof (cases "0 \<le> d")
  case True
  define k where "k = d div 366"
  have "0 \<le> k" using True by (simp add: k_def pos_imp_zdiv_nonneg_iff)
  then have "DayFromYear (1970 + k) \<le> 366 * k" using DayFromYear_le_366[of "1970 + k"] by simp
  moreover have "366 * k \<le> d"
    using mult_div_mod_eq[of 366 d] pos_mod_sign[of 366 d] unfolding k_def by linarith
  ultimately show ?thesis using True by (simp add: k_def)
next
  case False
  define k where "k = d div 365"
  have "k < 0" using False by (simp add: k_def div_neg_pos_less0)
  then have "DayFromYear (1970 + k) \<le> 365 * k" using DayFromYear_le[of "1970 + k"] by simp
  moreover have "365 * k \<le> d"
    using mult_div_mod_eq[of 365 d] pos_mod_sign[of 365 d] unfolding k_def by linarith
  ultimately show ?thesis using False by (simp add: k_def)
qed

text \<open>\<open>YearFromTime\<close> is the year of the specification.\<close>

lemma YearFromTime_bounds:
  "DayFromYear (YearFromTime t) \<le> Day t \<and> Day t < DayFromYear (YearFromTime t + 1)"
  unfolding YearFromTime_def Let_def
  by (rule yearUp_bounds) (rule estimate_le)

lemma YearFromTime_largest:
  "DayFromYear y \<le> Day t \<Longrightarrow> y \<le> YearFromTime t"
proof (rule ccontr)
  assume a: "DayFromYear y \<le> Day t" and "\<not> y \<le> YearFromTime t"
  then have "YearFromTime t + 1 \<le> y" by simp
  then have "DayFromYear (YearFromTime t + 1) \<le> DayFromYear y"
  proof (induction y rule: int_ge_induct)
    case base
    then show ?case by simp
  next
    case (step i)
    with DayFromYear_step[of i] DaysInYear_pos[of i] show ?case by simp
  qed
  with a YearFromTime_bounds[of t] show False by simp
qed

lemma DayWithinYear_range:
  "0 \<le> DayWithinYear t \<and> DayWithinYear t < DaysInYear (YearFromTime t)"
  using YearFromTime_bounds[of t] DayFromYear_step[of "YearFromTime t"]
  by (simp add: DayWithinYear_def)

lemma Day_range: "\<bar>t\<bar> \<le> 8640000000000000 \<Longrightarrow> - 100000000 \<le> Day t \<and> Day t \<le> 100000000"
proof -
  assume a: "\<bar>t\<bar> \<le> 8640000000000000"
  then have "- 100000000 * msPerDay \<le> t" "t \<le> 100000000 * msPerDay"
    by (simp_all add: msPerDay_def abs_le_iff)
  then have "(- 100000000 * msPerDay) div msPerDay \<le> t div msPerDay"
    "t div msPerDay \<le> (100000000 * msPerDay) div msPerDay"
    by (simp_all add: zdiv_mono1 msPerDay_def)
  then show ?thesis by (simp add: Day_def msPerDay_def)
qed

lemma YearFromTime_range:
  assumes "\<bar>t\<bar> \<le> 8640000000000000"
  shows "- 1000000 < YearFromTime t \<and> YearFromTime t < 1000000"
proof -
  define y where "y = YearFromTime t"
  have b: "DayFromYear y \<le> Day t" "Day t < DayFromYear (y + 1)"
    using YearFromTime_bounds[of t] by (simp_all add: y_def)
  have d: "- 100000000 \<le> Day t" "Day t \<le> 100000000" using Day_range[OF assms] by simp_all
  have "y < 1000000"
  proof (rule ccontr)
    assume "\<not> y < 1000000"
    then have "1970 \<le> y" "365 * (1000000 - 1970) \<le> 365 * (y - 1970)" by simp_all
    with DayFromYear_ge[of y] b(1) d(2) show False by simp
  qed
  moreover have "- 1000000 < y"
  proof (rule ccontr)
    assume "\<not> - 1000000 < y"
    then have "y + 1 \<le> 1970" "365 * (y + 1 - 1970) \<le> 365 * (- 1000000 + 1 - 1970)" by simp_all
    with DayFromYear_le[of "y + 1"] b(2) d(1) show False by simp
  qed
  ultimately show ?thesis by (simp add: y_def)
qed

lemma InLeapYear_eq: "InLeapYear t = (if isLeapYear (YearFromTime t) then 1 else 0)"
  by (simp add: InLeapYear_def DaysInYear_def)

lemma month_table:
  fixes d l :: int
  assumes "0 \<le> d" "d < 365 + l" "l = 0 \<or> l = 1"
  defines "m \<equiv> (if d < 31 then 0 else if d < 59 + l then 1 else if d < 90 + l then 2
         else if d < 120 + l then 3 else if d < 151 + l then 4 else if d < 181 + l then 5
         else if d < 212 + l then 6 else if d < 243 + l then 7 else if d < 273 + l then 8
         else if d < 304 + l then 9 else if d < 334 + l then 10 else (11::int))"
  defines "f \<equiv> (\<lambda>k::int. if k = 0 then 0 else if k = 1 then 31 else if k = 2 then 59 + l
         else if k = 3 then 90 + l else if k = 4 then 120 + l else if k = 5 then 151 + l
         else if k = 6 then 181 + l else if k = 7 then 212 + l else if k = 8 then 243 + l
         else if k = 9 then 273 + l else if k = 10 then 304 + l else if k = 11 then 334 + l
         else 365 + l)"
  defines "dt \<equiv> (if m = 0 then d + 1 else if m = 1 then d - 30 else if m = 2 then d - 58 - l
         else if m = 3 then d - 89 - l else if m = 4 then d - 119 - l
         else if m = 5 then d - 150 - l else if m = 6 then d - 180 - l
         else if m = 7 then d - 211 - l else if m = 8 then d - 242 - l
         else if m = 9 then d - 272 - l else if m = 10 then d - 303 - l else d - 333 - l)"
  shows "0 \<le> m \<and> m \<le> 11 \<and> 1 \<le> dt \<and> dt \<le> f (m + 1) - f m \<and> f m + dt - 1 = d \<and> dt \<le> 31"
proof -
  have lb: "0 \<le> l" "l \<le> 1" using assms(3) by auto
  show ?thesis
  proof (cases "d < 31")
    case u0: True
    have m: "m = 0" using u0 lb by (simp add: m_def)
    have "dt = d - (0) + 1" unfolding dt_def m by simp
    moreover have "f m = 0" "f (m + 1) = 31" unfolding f_def m by simp_all
    ultimately show ?thesis using u0 assms(1) lb by (simp add: m)
  next
    case False
    then have n1: "31 \<le> d" by simp
    show ?thesis
    proof (cases "d < 59 + l")
      case u1: True
      have m: "m = 1" using n1 u1 lb by (simp add: m_def)
      have "dt = d - (31) + 1" unfolding dt_def m by simp
      moreover have "f m = 31" "f (m + 1) = 59 + l" unfolding f_def m by simp_all
      ultimately show ?thesis using n1 u1  lb by (simp add: m)
    next
      case False
      then have n2: "59 + l \<le> d" by simp
      show ?thesis
      proof (cases "d < 90 + l")
        case u2: True
        have m: "m = 2" using n2 u2 lb by (simp add: m_def)
        have "dt = d - (59 + l) + 1" unfolding dt_def m by simp
        moreover have "f m = 59 + l" "f (m + 1) = 90 + l" unfolding f_def m by simp_all
        ultimately show ?thesis using n2 u2  lb by (simp add: m)
      next
        case False
        then have n3: "90 + l \<le> d" by simp
        show ?thesis
        proof (cases "d < 120 + l")
          case u3: True
          have m: "m = 3" using n3 u3 lb by (simp add: m_def)
          have "dt = d - (90 + l) + 1" unfolding dt_def m by simp
          moreover have "f m = 90 + l" "f (m + 1) = 120 + l" unfolding f_def m by simp_all
          ultimately show ?thesis using n3 u3  lb by (simp add: m)
        next
          case False
          then have n4: "120 + l \<le> d" by simp
          show ?thesis
          proof (cases "d < 151 + l")
            case u4: True
            have m: "m = 4" using n4 u4 lb by (simp add: m_def)
            have "dt = d - (120 + l) + 1" unfolding dt_def m by simp
            moreover have "f m = 120 + l" "f (m + 1) = 151 + l" unfolding f_def m by simp_all
            ultimately show ?thesis using n4 u4  lb by (simp add: m)
          next
            case False
            then have n5: "151 + l \<le> d" by simp
            show ?thesis
            proof (cases "d < 181 + l")
              case u5: True
              have m: "m = 5" using n5 u5 lb by (simp add: m_def)
              have "dt = d - (151 + l) + 1" unfolding dt_def m by simp
              moreover have "f m = 151 + l" "f (m + 1) = 181 + l" unfolding f_def m by simp_all
              ultimately show ?thesis using n5 u5  lb by (simp add: m)
            next
              case False
              then have n6: "181 + l \<le> d" by simp
              show ?thesis
              proof (cases "d < 212 + l")
                case u6: True
                have m: "m = 6" using n6 u6 lb by (simp add: m_def)
                have "dt = d - (181 + l) + 1" unfolding dt_def m by simp
                moreover have "f m = 181 + l" "f (m + 1) = 212 + l" unfolding f_def m by simp_all
                ultimately show ?thesis using n6 u6  lb by (simp add: m)
              next
                case False
                then have n7: "212 + l \<le> d" by simp
                show ?thesis
                proof (cases "d < 243 + l")
                  case u7: True
                  have m: "m = 7" using n7 u7 lb by (simp add: m_def)
                  have "dt = d - (212 + l) + 1" unfolding dt_def m by simp
                  moreover have "f m = 212 + l" "f (m + 1) = 243 + l" unfolding f_def m by simp_all
                  ultimately show ?thesis using n7 u7  lb by (simp add: m)
                next
                  case False
                  then have n8: "243 + l \<le> d" by simp
                  show ?thesis
                  proof (cases "d < 273 + l")
                    case u8: True
                    have m: "m = 8" using n8 u8 lb by (simp add: m_def)
                    have "dt = d - (243 + l) + 1" unfolding dt_def m by simp
                    moreover have "f m = 243 + l" "f (m + 1) = 273 + l" unfolding f_def m by simp_all
                    ultimately show ?thesis using n8 u8  lb by (simp add: m)
                  next
                    case False
                    then have n9: "273 + l \<le> d" by simp
                    show ?thesis
                    proof (cases "d < 304 + l")
                      case u9: True
                      have m: "m = 9" using n9 u9 lb by (simp add: m_def)
                      have "dt = d - (273 + l) + 1" unfolding dt_def m by simp
                      moreover have "f m = 273 + l" "f (m + 1) = 304 + l" unfolding f_def m by simp_all
                      ultimately show ?thesis using n9 u9  lb by (simp add: m)
                    next
                      case False
                      then have n10: "304 + l \<le> d" by simp
                      show ?thesis
                      proof (cases "d < 334 + l")
                        case u10: True
                        have m: "m = 10" using n10 u10 lb by (simp add: m_def)
                        have "dt = d - (304 + l) + 1" unfolding dt_def m by simp
                        moreover have "f m = 304 + l" "f (m + 1) = 334 + l" unfolding f_def m by simp_all
                        ultimately show ?thesis using n10 u10  lb by (simp add: m)
                      next
                        case False
                        then have n11: "334 + l \<le> d" by simp
                        have u11: "d < 365 + l" using assms(2) by simp
                        have m: "m = 11" using n11 u11 lb by (simp add: m_def)
                        have "dt = d - (334 + l) + 1" unfolding dt_def m by simp
                        moreover have "f m = 334 + l" "f (m + 1) = 365 + l" unfolding f_def m by simp_all
                        ultimately show ?thesis using n11 u11  lb by (simp add: m)
                      qed
                    qed
                  qed
                qed
              qed
            qed
          qed
        qed
      qed
    qed
  qed
qed

lemma month_date:
  "0 \<le> MonthFromTime t \<and> MonthFromTime t \<le> 11 \<and> 1 \<le> DateFromTime t \<and> DateFromTime t \<le> 31
   \<and> DateFromTime t \<le> firstDayOfMonth (YearFromTime t) (MonthFromTime t + 1)
                        - firstDayOfMonth (YearFromTime t) (MonthFromTime t)
   \<and> firstDayOfMonth (YearFromTime t) (MonthFromTime t) + DateFromTime t - 1 = DayWithinYear t"
proof -
  define l where "l = InLeapYear t"
  have l: "l = 0 \<or> l = 1" by (simp add: l_def InLeapYear_def)
  have r: "0 \<le> DayWithinYear t" "DayWithinYear t < 365 + l"
    using DayWithinYear_range[of t] by (auto simp: l_def InLeapYear_def DaysInYear_def)
  have f: "firstDayOfMonth (YearFromTime t) k =
       (if k = 0 then 0 else if k = 1 then 31 else if k = 2 then 59 + l
         else if k = 3 then 90 + l else if k = 4 then 120 + l else if k = 5 then 151 + l
         else if k = 6 then 181 + l else if k = 7 then 212 + l else if k = 8 then 243 + l
         else if k = 9 then 273 + l else if k = 10 then 304 + l else if k = 11 then 334 + l
         else 365 + l)" for k
    unfolding firstDayOfMonth_def Let_def l_def InLeapYear_eq by (rule refl)
  have m: "MonthFromTime t = (if DayWithinYear t < 31 then 0 else if DayWithinYear t < 59 + l then 1
         else if DayWithinYear t < 90 + l then 2
         else if DayWithinYear t < 120 + l then 3 else if DayWithinYear t < 151 + l then 4
         else if DayWithinYear t < 181 + l then 5
         else if DayWithinYear t < 212 + l then 6 else if DayWithinYear t < 243 + l then 7
         else if DayWithinYear t < 273 + l then 8
         else if DayWithinYear t < 304 + l then 9 else if DayWithinYear t < 334 + l then 10 else 11)"
    unfolding MonthFromTime_def Let_def l_def by (rule refl)
  have d: "DateFromTime t = (if MonthFromTime t = 0 then DayWithinYear t + 1
         else if MonthFromTime t = 1 then DayWithinYear t - 30
         else if MonthFromTime t = 2 then DayWithinYear t - 58 - l
         else if MonthFromTime t = 3 then DayWithinYear t - 89 - l
         else if MonthFromTime t = 4 then DayWithinYear t - 119 - l
         else if MonthFromTime t = 5 then DayWithinYear t - 150 - l
         else if MonthFromTime t = 6 then DayWithinYear t - 180 - l
         else if MonthFromTime t = 7 then DayWithinYear t - 211 - l
         else if MonthFromTime t = 8 then DayWithinYear t - 242 - l
         else if MonthFromTime t = 9 then DayWithinYear t - 272 - l
         else if MonthFromTime t = 10 then DayWithinYear t - 303 - l
         else DayWithinYear t - 333 - l)"
    unfolding DateFromTime_def Let_def l_def by (rule refl)
  from month_table[OF r l] show ?thesis
    unfolding f d unfolding m by blast
qed

lemma MakeDay_roundtrip: "MakeDay (YearFromTime t) (MonthFromTime t) (DateFromTime t) = Day t"
proof -
  have m: "MonthFromTime t div 12 = 0" "MonthFromTime t mod 12 = MonthFromTime t"
    using month_date[of t] by simp_all
  have "firstDayOfMonth (YearFromTime t) (MonthFromTime t) + DateFromTime t - 1 = DayWithinYear t"
    using month_date[of t] by blast
  then show ?thesis
    unfolding MakeDay_def Let_def m by (simp add: DayWithinYear_def)
qed

lemma mod_range: "0 < k \<Longrightarrow> 0 \<le> (x::int) mod k \<and> x mod k \<le> k - 1"
  using pos_mod_bound[of k x] pos_mod_sign[of k x] by linarith

lemma time_fields_range:
  "0 \<le> HourFromTime t \<and> HourFromTime t \<le> 23 \<and> 0 \<le> MinFromTime t \<and> MinFromTime t \<le> 59
   \<and> 0 \<le> SecFromTime t \<and> SecFromTime t \<le> 59 \<and> 0 \<le> msFromTime t \<and> msFromTime t \<le> 999"
  unfolding HourFromTime_def MinFromTime_def SecFromTime_def msFromTime_def
  using mod_range[of 24 "t div 3600000"] mod_range[of 60 "t div 60000"]
    mod_range[of 60 "t div 1000"] mod_range[of 1000 t]
  by (simp only: zero_less_numeral diff_numeral_special arith_simps simp_thms)

lemma mod_split: "0 < a \<Longrightarrow> 0 < b \<Longrightarrow> (x::int) mod (a * b) = a * ((x div a) mod b) + x mod a"
  by (simp add: zmod_zmult2_eq)

lemma div_split: "0 < b \<Longrightarrow> (x::int) div (a * b) = (x div a) div b"
  by (simp add: zdiv_zmult2_eq)

lemma MakeTime_nested: "MakeTime H M S X = 1000 * (60 * (60 * H + M) + S) + X"
  by (simp add: MakeTime_def)

lemma MakeTime_roundtrip:
  "MakeTime (HourFromTime t) (MinFromTime t) (SecFromTime t) (msFromTime t) = TimeWithinDay t"
proof -
  define s where "s = t div 1000"
  define mi where "mi = s div 60"
  define h where "h = mi div 60"
  have d1: "t div 60000 = mi"
    using div_split[of 60 t 1000] by (simp add: mi_def s_def)
  have d2: "t div 3600000 = h"
    using div_split[of 3600 t 1000] div_split[of 60 s 60] by (simp add: h_def mi_def s_def)
  have a: "t mod 86400000 = 1000 * (s mod 86400) + t mod 1000"
    using mod_split[of 1000 86400 t] by (simp add: s_def)
  have b: "s mod 86400 = 60 * (mi mod 1440) + s mod 60"
    using mod_split[of 60 1440 s] by (simp add: mi_def)
  have c: "mi mod 1440 = 60 * (h mod 24) + mi mod 60"
    using mod_split[of 60 24 mi] by (simp add: h_def)
  have "TimeWithinDay t = 1000 * (60 * (60 * (h mod 24) + mi mod 60) + s mod 60) + t mod 1000"
    unfolding TimeWithinDay_def msPerDay_def a b c by (rule refl)
  then show ?thesis
    unfolding HourFromTime_def MinFromTime_def SecFromTime_def msFromTime_def d1 d2
      MakeTime_nested s_def[symmetric]
    by (rule sym)
qed

lemma MakeDate_roundtrip:
  "MakeDate (MakeDay (YearFromTime t) (MonthFromTime t) (DateFromTime t))
     (MakeTime (HourFromTime t) (MinFromTime t) (SecFromTime t) (msFromTime t)) = t"
  unfolding MakeDay_roundtrip MakeTime_roundtrip
  by (simp add: MakeDate_def Day_def TimeWithinDay_def)

section \<open>Date normalization: an ISO string reads back as its time value\<close>

lemma String_digits: "list_all isDigit (String n)"
proof (induction n rule: String.induct)
  case (1 n)
  show ?case
  proof (cases "n < 10")
    case True
    then show ?thesis by (subst String.simps) (simp add: isDigit_digitChar)
  next
    case False
    with "1.IH" show ?thesis by (subst String.simps) (simp add: isDigit_digitChar)
  qed
qed

lemma String_length: "0 < k \<Longrightarrow> n < 10 ^ k \<Longrightarrow> length (String n) \<le> k"
proof (induction n arbitrary: k rule: String.induct)
  case (1 n)
  show ?case
  proof (cases "n < 10")
    case True
    with "1.prems" show ?thesis by (subst String.simps) simp
  next
    case False
    obtain j where k: "k = Suc j" using "1.prems"(1) by (cases k) auto
    have "0 < j"
    proof (rule ccontr)
      assume "\<not> 0 < j"
      with k "1.prems"(2) False show False by simp
    qed
    moreover have "n div 10 < 10 ^ j"
      using "1.prems"(2) k by (simp add: less_mult_imp_div_less)
    ultimately have "length (String (n div 10)) \<le> j" using "1.IH"[OF False] by blast
    with False k show ?thesis by (subst String.simps) simp
  qed
qed

lemma parseInt_snoc: "parseInt (xs @ [c]) = 10 * parseInt xs + digitValue c"
  by (simp add: parseInt_def)

lemma parseInt_String: "parseInt (String n) = n"
proof (induction n rule: String.induct)
  case (1 n)
  show ?case
  proof (cases "n < 10")
    case True
    then show ?thesis by (subst String.simps) (simp add: parseInt_def digitValue_digitChar)
  next
    case False
    with "1.IH" show ?thesis
      by (subst String.simps) (simp add: parseInt_snoc digitValue_digitChar)
  qed
qed

lemma parseInt_zeros: "parseInt (replicate j (CHR ''0'') @ s) = parseInt s"
proof (induction j)
  case 0
  then show ?case by simp
next
  case (Suc j)
  have "foldl (\<lambda>n c. 10 * n + digitValue c) 0 (CHR ''0'' # replicate j (CHR ''0'') @ s)
      = foldl (\<lambda>n c. 10 * n + digitValue c) 0 (replicate j (CHR ''0'') @ s)"
    by (simp add: digitValue_def)
  with Suc show ?case by (simp add: parseInt_def)
qed

lemma zero_digit: "isDigit (CHR ''0'')"
  by (simp add: isDigit_def)

lemma pad_facts:
  assumes "0 < k" "0 \<le> n" "n < 10 ^ k"
  shows "length (pad k n) = k \<and> list_all isDigit (pad k n) \<and> int (parseInt (pad k n)) = n"
proof -
  have "nat n < 10 ^ k" using assms(2,3) by (simp add: nat_less_iff)
  then have "length (String (nat n)) \<le> k" using assms(1) by (intro String_length)
  then have "length (pad k n) = k" by (simp add: pad_def padStart_def)
  moreover have "list_all isDigit (pad k n)"
    using String_digits[of "nat n"] by (auto simp: pad_def padStart_def list_all_iff zero_digit)
  moreover have "int (parseInt (pad k n)) = n"
    using assms(2) by (simp add: pad_def padStart_def parseInt_zeros parseInt_String)
  ultimately show ?thesis by blast
qed

lemma digitsField_pad:
  assumes "0 < k" "0 \<le> n" "n < 10 ^ k"
  shows "digitsField k (pad k n @ rest) = Some (n, rest)"
  using pad_facts[OF assms] by (simp add: digitsField_def)

lemma expect_Cons: "expect c (c # r) = Some r"
  by (simp add: expect_def)

lemma pad_hd_digit:
  assumes "0 < k" "0 \<le> n" "n < 10 ^ k"
  shows "pad k n \<noteq> [] \<and> isDigit (hd (pad k n))"
proof -
  from pad_facts[OF assms] have l: "length (pad k n) = k" and d: "list_all isDigit (pad k n)" by simp_all
  from l assms(1) have "pad k n \<noteq> []" by auto
  with d show ?thesis by (cases "pad k n") auto
qed

lemma yearField_plain:
  assumes "0 \<le> y" "y \<le> 9999"
  shows "yearField (pad 4 y @ rest) = Some (y, rest)"
proof -
  have r: "(0::nat) < 4" "y < 10 ^ 4" using assms by simp_all
  from pad_hd_digit[OF r(1) assms(1) r(2)] obtain c cs where p: "pad 4 y = c # cs" and c: "isDigit c"
    by (cases "pad 4 y") auto
  from c have "c \<noteq> CHR ''+''" "c \<noteq> CHR ''-''" by (auto simp: isDigit_def)
  then have "yearField (pad 4 y @ rest) = digitsField 4 (pad 4 y @ rest)"
    by (simp add: yearField_def p)
  then show ?thesis using digitsField_pad[OF r(1) assms(1) r(2)] by simp
qed

lemma yearField_plus:
  assumes "9999 < y" "y < 1000000"
  shows "yearField (''+'' @ pad 6 \<bar>y\<bar> @ rest) = Some (y, rest)"
proof -
  have "digitsField 6 (pad 6 \<bar>y\<bar> @ rest) = Some (\<bar>y\<bar>, rest)"
    using assms by (intro digitsField_pad) simp_all
  then show ?thesis using assms by (simp add: yearField_def)
qed

lemma yearField_minus:
  assumes "y < 0" "- 1000000 < y"
  shows "yearField (''-'' @ pad 6 \<bar>y\<bar> @ rest) = Some (y, rest)"
proof -
  have "digitsField 6 (pad 6 \<bar>y\<bar> @ rest) = Some (\<bar>y\<bar>, rest)"
    using assms by (intro digitsField_pad) simp_all
  then show ?thesis using assms by (simp add: yearField_def)
qed

lemma parseISO_fields:
  assumes y: "yearField (ys @ ''-'' @ pad 2 mo @ ''-'' @ pad 2 d @ ''T'' @ pad 2 h @ '':'' @ pad 2 mi
                 @ '':'' @ pad 2 sec @ ''.'' @ pad 3 ms @ ''Z'')
              = Some (y, ''-'' @ pad 2 mo @ ''-'' @ pad 2 d @ ''T'' @ pad 2 h @ '':'' @ pad 2 mi
                 @ '':'' @ pad 2 sec @ ''.'' @ pad 3 ms @ ''Z'')"
    and r: "1 \<le> mo" "mo \<le> 12" "1 \<le> d" "d \<le> 31" "0 \<le> h" "h \<le> 23" "0 \<le> mi" "mi \<le> 59"
      "0 \<le> sec" "sec \<le> 59" "0 \<le> ms" "ms \<le> 999"
    and dm: "d \<le> firstDayOfMonth y mo - firstDayOfMonth y (mo - 1)"
  shows "parseISO (ys @ ''-'' @ pad 2 mo @ ''-'' @ pad 2 d @ ''T'' @ pad 2 h @ '':'' @ pad 2 mi
                 @ '':'' @ pad 2 sec @ ''.'' @ pad 3 ms @ ''Z'')
         = Some (MakeDate (MakeDay y (mo - 1) d) (MakeTime h mi sec ms))"
proof -
  have f: "digitsField 2 (pad 2 mo @ rest) = Some (mo, rest)"
    "digitsField 2 (pad 2 d @ rest) = Some (d, rest)"
    "digitsField 2 (pad 2 h @ rest) = Some (h, rest)"
    "digitsField 2 (pad 2 mi @ rest) = Some (mi, rest)"
    "digitsField 2 (pad 2 sec @ rest) = Some (sec, rest)"
    "digitsField 3 (pad 3 ms @ rest) = Some (ms, rest)" for rest
    using r by (simp_all add: digitsField_pad)
  show ?thesis
    unfolding parseISO_def y
    using r dm by (simp add: f expect_Cons)
qed

lemma parseISO_toISOString:
  assumes "\<bar>t\<bar> \<le> 8640000000000000"
  shows "parseISO (toISOString t) = Some t"
proof -
  define y where "y = YearFromTime t"
  define ys where "ys = (if 0 \<le> y \<and> y \<le> 9999 then pad 4 y
                  else (if y < 0 then ''-'' else ''+'') @ pad 6 \<bar>y\<bar>)"
  define mo where "mo = MonthFromTime t + 1"
  define rest where "rest = ''-'' @ pad 2 mo @ ''-'' @ pad 2 (DateFromTime t) @ ''T''
      @ pad 2 (HourFromTime t) @ '':'' @ pad 2 (MinFromTime t) @ '':'' @ pad 2 (SecFromTime t)
      @ ''.'' @ pad 3 (msFromTime t) @ ''Z''"
  have iso: "toISOString t = ys @ rest"
    unfolding toISOString_def Let_def ys_def rest_def mo_def y_def by simp
  have yr: "- 1000000 < y" "y < 1000000"
    using YearFromTime_range[OF assms] by (simp_all add: y_def)
  have yf: "yearField (ys @ rest) = Some (y, rest)"
  proof (cases "0 \<le> y \<and> y \<le> 9999")
    case True
    then show ?thesis using yearField_plain[of y rest] by (simp add: ys_def)
  next
    case False
    show ?thesis
    proof (cases "y < 0")
      case True
      then show ?thesis using yearField_minus[of y rest] yr by (simp add: ys_def)
    next
      case pos: False
      with False have "9999 < y" by simp
      then show ?thesis using yearField_plus[of y rest] yr pos by (simp add: ys_def)
    qed
  qed
  have md: "1 \<le> mo" "mo \<le> 12" "1 \<le> DateFromTime t" "DateFromTime t \<le> 31"
    "DateFromTime t \<le> firstDayOfMonth y mo - firstDayOfMonth y (mo - 1)"
    using month_date[of t] by (simp_all add: mo_def y_def)
  have tf: "0 \<le> HourFromTime t" "HourFromTime t \<le> 23" "0 \<le> MinFromTime t" "MinFromTime t \<le> 59"
    "0 \<le> SecFromTime t" "SecFromTime t \<le> 59" "0 \<le> msFromTime t" "msFromTime t \<le> 999"
    using time_fields_range[of t] by simp_all
  have "parseISO (ys @ rest)
      = Some (MakeDate (MakeDay y (mo - 1) (DateFromTime t))
               (MakeTime (HourFromTime t) (MinFromTime t) (SecFromTime t) (msFromTime t)))"
    unfolding rest_def
    by (rule parseISO_fields) (use yf md tf in \<open>simp_all add: rest_def\<close>)
  also have "\<dots> = Some t"
    using MakeDate_roundtrip[of t] by (simp add: mo_def y_def)
  finally show ?thesis by (simp add: iso)
qed

lemma Date_parse_clipped: "Date_parse impl s = Some t \<Longrightarrow> \<bar>t\<bar> \<le> 8640000000000000"
  by (auto simp: Date_parse_def TimeClip_def split: option.splits if_splits)

lemma normalizeDateToISO_idem:
  assumes "normalizeDateToISO impl input = Inr canon"
  shows "normalizeDateToISO impl canon = Inr canon"
proof -
  from assms obtain t where p: "Date_parse impl input = Some t" and i: "canon = toISOString t"
    by (auto simp: normalizeDateToISO_def split: option.splits)
  have c: "\<bar>t\<bar> \<le> 8640000000000000" using p by (rule Date_parse_clipped)
  then have "parseISO canon = Some t" unfolding i by (rule parseISO_toISOString)
  with c have "Date_parse impl canon = Some t" by (simp add: Date_parse_def TimeClip_def)
  then show ?thesis by (simp add: normalizeDateToISO_def i)
qed

section \<open>Normalization is idempotent\<close>

text \<open>
  Claim C7. Whatever input the time normalizer accepts, it accepts its own output and
  returns it unchanged; and whatever input the date normalizer accepts (in the Date Time
  String Format or in a format of the implementation's own), it accepts the ISO string
  it produced and returns it unchanged.
\<close>

theorem normalization_idempotent:
  "(normalizeTimeTo24 input = Inr out \<longrightarrow> normalizeTimeTo24 out = Inr out)
   \<and> (normalizeDateToISO impl input' = Inr canon \<longrightarrow> normalizeDateToISO impl canon = Inr canon)"
  using normalizeTimeTo24_idem normalizeDateToISO_idem by blast

text \<open>
  The theorem at the time \<open>9:30 PM\<close> and at the date \<open>Feb 29, 2020\<close>, which the sample
  parser reads in a format of its own.
\<close>

theorem normalization_idempotent_witness:
  "normalizeTimeTo24 ''21:30'' = Inr ''21:30''
   \<and> normalizeDateToISO sampleParser ''2020-02-29T00:00:00.000Z'' = Inr ''2020-02-29T00:00:00.000Z''"
proof -
  have t: "normalizeTimeTo24 ''9:30 PM'' = Inr ''21:30''" by code_simp
  have d: "normalizeDateToISO sampleParser ''Feb 29, 2020'' = Inr ''2020-02-29T00:00:00.000Z''"
    by code_simp
  from normalization_idempotent[of "''9:30 PM''" "''21:30''" sampleParser "''Feb 29, 2020''"
      "''2020-02-29T00:00:00.000Z''"] t d
  show ?thesis by blast
qed

end
